theory Spec2Isabelle
  imports Main "HOL-Library.Word" "HOL-Library.Code_Target_Nat"
begin

section \<open>Outcomes that are not values\<close>

text \<open>
  The functions of \<^verbatim>\<open>bloom-dbg.h\<close> are modelled as functions from the state they read
  to the state they leave.  Where the source can stop without a result, the model returns
  \<open>Inl\<close> of one of these:
  \<^item> \<open>AssertionFailed\<close>: an \<^verbatim>\<open>assert\<close> of the source does not hold;
  \<^item> \<open>OutOfRange\<close>: \<^verbatim>\<open>std::string::substr\<close> is called with a start beyond the end;
  \<^item> \<open>Undefined\<close>: the language gives the operation no meaning (erasing a range that
    is not inside the container, extending an empty path);
  \<^item> \<open>NoReturn\<close>: a loop of the source runs forever.
\<close>

datatype error = AssertionFailed | OutOfRange | Undefined | NoReturn

section \<open>Rounding up to a multiple\<close>

text \<open>
  \<^verbatim>\<open>roundUpToMultiple\<close> is a template over an integer type \<open>T\<close>; the assembler
  instantiates it at \<^verbatim>\<open>size_t\<close>.  The model is over words of any width, so \<open>+\<close> and
  \<open>-\<close> wrap around as unsigned arithmetic does.  The remainder operation of the
  language has no defined result for a zero divisor: \<open>umod\<close> makes that case the
  value \<open>None\<close>, and the function propagates it.
\<close>

definition umod :: "'a::len word \<Rightarrow> 'a word \<Rightarrow> 'a word option" where
  "umod a b = (if b = 0 then None else Some (a mod b))"

definition roundUpToMultiple :: "'a::len word \<Rightarrow> 'a word \<Rightarrow> 'a word option" where
  "roundUpToMultiple num base =
     (if base = 0 then Some num
      else case umod num base of
             None \<Rightarrow> None
           | Some remainder \<Rightarrow>
               if remainder = 0 then Some num
               else Some (num + base - remainder))"

section \<open>Sequences, k-mers and the rolling hash iterator\<close>

type_synonym Sequence = string

text \<open>
  A \<open>RollingHash\<close> value is the array of hash values of one k-mer.  The hash function
  itself is defined in \<^verbatim>\<open>BloomDBG/RollingHash.h\<close>, which is missing; every function
  that hashes takes it as its first argument \<open>rh\<close>, and \<open>rh numHashes w\<close> are the
  hash values of the k-mer \<open>w\<close>.  Nothing is assumed about it.
\<close>

type_synonym RollingHash = "nat list"

type_synonym hasher = "nat \<Rightarrow> string \<Rightarrow> RollingHash"

text \<open>
  Modelled from the spec: the class \<^verbatim>\<open>Kmer\<close> (\<^verbatim>\<open>Common/Kmer.h\<close> is missing).  A k-mer
  built from a string of bases holds these bases in order; \<^verbatim>\<open>str()\<close> gives them back
  and \<^verbatim>\<open>getLastBaseChar()\<close> is the last of them.
\<close>

datatype Kmer = Kmer (str: string)

definition getLastBaseChar :: "Kmer \<Rightarrow> char" where
  "getLastBaseChar km = last (str km)"

text \<open>
  Modelled from the spec: the class \<^verbatim>\<open>RollingHashIterator\<close>
  (\<^verbatim>\<open>BloomDBG/RollingHashIterator.h\<close> is missing).  It visits, in increasing order, the
  positions of the sequence at which a full window of \<open>k\<close> characters starts and
  consists of the bases A, C, G, T only; a window with another character is skipped.
  At a position, \<^verbatim>\<open>it.pos()\<close> is the position, \<^verbatim>\<open>it.kmer()\<close> the window,
  and \<^verbatim>\<open>*it\<close> and \<^verbatim>\<open>it.rollingHash()\<close> the hash values of the window.
\<close>

definition isACGT :: "char \<Rightarrow> bool" where
  "isACGT c = (c = CHR ''A'' \<or> c = CHR ''C'' \<or> c = CHR ''G'' \<or> c = CHR ''T'')"

definition kmerAt :: "Sequence \<Rightarrow> nat \<Rightarrow> nat \<Rightarrow> string" where
  "kmerAt seq k pos = take k (drop pos seq)"

definition kmerPositions :: "Sequence \<Rightarrow> nat \<Rightarrow> nat list" where
  "kmerPositions seq k =
     (if length seq < k then []
      else filter (\<lambda>pos. list_all isACGT (kmerAt seq k pos)) [0 ..< length seq - k + 1])"

section \<open>The Bloom filter\<close>

text \<open>
  Modelled from the spec: the class \<^verbatim>\<open>BloomFilter\<close> (an external library, missing).
  A filter is a bit array of \<open>m_size\<close> bits with a number of hashes and a k-mer
  size; \<open>m_filter\<close> is the set of indices of the bits that are set.
  \<^verbatim>\<open>contains\<close> is true iff every hash value, reduced modulo the size, indexes a set
  bit; \<^verbatim>\<open>insert\<close> sets these bits.  (For a filter of size 0 the remainder has no
  meaning in the library; here it is the hash value itself, and no property below depends
  on it.)
\<close>

record BloomFilter =
  m_filter :: "nat set"
  m_size :: nat
  m_hashNum :: nat
  m_kmerSize :: nat

definition bf_contains :: "BloomFilter \<Rightarrow> RollingHash \<Rightarrow> bool" where
  "bf_contains bloom hs = list_all (\<lambda>h. h mod m_size bloom \<in> m_filter bloom) hs"

definition bf_insert :: "BloomFilter \<Rightarrow> RollingHash \<Rightarrow> BloomFilter" where
  "bf_insert bloom hs =
     bloom\<lparr>m_filter := m_filter bloom \<union> set (map (\<lambda>h. h mod m_size bloom) hs)\<rparr>"

definition newBloomFilter :: "nat \<Rightarrow> nat \<Rightarrow> nat \<Rightarrow> BloomFilter" where
  "newBloomFilter sz hashNum k =
     \<lparr>m_filter = {}, m_size = sz, m_hashNum = hashNum, m_kmerSize = k\<rparr>"

text \<open>
  \<^verbatim>\<open>allKmersInBloom\<close>: the loop leaves with \<^verbatim>\<open>false\<close> at the first k-mer that
  the filter does not contain.
\<close>

definition allKmersInBloom :: "hasher \<Rightarrow> Sequence \<Rightarrow> BloomFilter \<Rightarrow> error + bool" where
  "allKmersInBloom rh seq bloom =
     (let k = m_kmerSize bloom; numHashes = m_hashNum bloom in
      if length seq < k then Inl AssertionFailed
      else Inr (list_all (\<lambda>pos. bf_contains bloom (rh numHashes (kmerAt seq k pos)))
                  (kmerPositions seq k)))"

definition addKmersToBloom :: "hasher \<Rightarrow> Sequence \<Rightarrow> BloomFilter \<Rightarrow> BloomFilter" where
  "addKmersToBloom rh seq bloom =
     (let k = m_kmerSize bloom; numHashes = m_hashNum bloom in
      foldl (\<lambda>b pos. bf_insert b (rh numHashes (kmerAt seq k pos))) bloom
        (kmerPositions seq k))"

section \<open>Sequences to paths and back\<close>

type_synonym V = "Kmer \<times> RollingHash"

definition seqToPath :: "hasher \<Rightarrow> Sequence \<Rightarrow> nat \<Rightarrow> nat \<Rightarrow> error + V list" where
  "seqToPath rh seq k numHashes =
     (if length seq < k then Inl AssertionFailed
      else Inr (map (\<lambda>pos. (Kmer (kmerAt seq k pos), rh numHashes (kmerAt seq k pos)))
                  (kmerPositions seq k)))"

definition pathToSeq :: "V list \<Rightarrow> error + Sequence" where
  "pathToSeq path =
     (case path of
        [] \<Rightarrow> Inl AssertionFailed
      | v # rest \<Rightarrow> Inr (str (fst v) @ map (\<lambda>u. getLastBaseChar (fst u)) rest))"

section \<open>The graph, as far as the assembler looks at it\<close>

datatype Direction = FORWARD | REVERSE

text \<open>
  The function \<^verbatim>\<open>trueBranches(v, dir, g, minBranchLen)\<close> of \<^verbatim>\<open>Graph/ExtendPath.h\<close>
  is missing.  A graph is represented by what this function
  returns on it: \<open>g v dir minBranchLen\<close> is the list of the neighbours of \<open>v\<close> in
  direction \<open>dir\<close> that start a branch of at least \<open>minBranchLen\<close> vertices.
\<close>

type_synonym 'v graph = "'v \<Rightarrow> Direction \<Rightarrow> nat \<Rightarrow> 'v list"

section \<open>Splitting a path at branching k-mers\<close>

text \<open>
  The loop of \<^verbatim>\<open>splitPath\<close> over the vertices of the path, with the two variables
  it updates: the segments closed so far and the segment under construction.
\<close>

fun splitPath_loop ::
  "'v graph \<Rightarrow> nat \<Rightarrow> 'v list \<Rightarrow> 'v list list \<Rightarrow> 'v list \<Rightarrow> 'v list list \<times> 'v list"
where
  "splitPath_loop dbg minBranchLen [] splitPaths currentPath = (splitPaths, currentPath)"
| "splitPath_loop dbg minBranchLen (v # rest) splitPaths currentPath =
     (let currentPath1 = currentPath @ [v];
          inDegree = length (dbg v REVERSE minBranchLen);
          outDegree = length (dbg v FORWARD minBranchLen)
      in if inDegree > 1 \<or> outDegree > 1
         then splitPath_loop dbg minBranchLen rest (splitPaths @ [currentPath1]) [v]
         else splitPath_loop dbg minBranchLen rest splitPaths currentPath1)"

definition splitPath :: "'v list \<Rightarrow> 'v graph \<Rightarrow> nat \<Rightarrow> 'v list list" where
  "splitPath path dbg minBranchLen =
     (case splitPath_loop dbg minBranchLen path [] [] of
        (splitPaths, currentPath) \<Rightarrow>
          if length currentPath > 1 then splitPaths @ [currentPath] else splitPaths)"

section \<open>Extending a path\<close>

text \<open>
  Modelled from the spec: the directional \<^verbatim>\<open>extendPath(path, dir, graph, visited,
  minBranchLen, NO_LIMIT)\<close> of \<^verbatim>\<open>Graph/ExtendPath.h\<close> (missing).  The path grows by one
  vertex at a time at its end in the direction of travel (the last vertex going forward,
  the first going in reverse).  With no true branch at the end, or with two or more, the
  extension stops; with exactly one it stops if that vertex is in the visited set,
  and otherwise adds the vertex to the path and to the visited set and goes on.
  Nothing bounds the number of steps, so the function is partial: \<open>None\<close> stands for
  an extension that never stops.
\<close>

definition pathEnd :: "Direction \<Rightarrow> 'v list \<Rightarrow> 'v" where
  "pathEnd dir path = (case dir of FORWARD \<Rightarrow> last path | REVERSE \<Rightarrow> hd path)"

definition pathPush :: "Direction \<Rightarrow> 'v \<Rightarrow> 'v list \<Rightarrow> 'v list" where
  "pathPush dir w path = (case dir of FORWARD \<Rightarrow> path @ [w] | REVERSE \<Rightarrow> w # path)"

partial_function (option) extendPathDir ::
  "'v graph \<Rightarrow> Direction \<Rightarrow> nat \<Rightarrow> 'v list \<Rightarrow> 'v set \<Rightarrow> ('v list \<times> 'v set) option"
where
  "extendPathDir g dir minBranchLen path visited =
     (case g (pathEnd dir path) dir minBranchLen of
        [] \<Rightarrow> Some (path, visited)
      | w # ws \<Rightarrow>
          if ws \<noteq> [] then Some (path, visited)
          else if w \<in> visited then Some (path, visited)
          else extendPathDir g dir minBranchLen (pathPush dir w path) (insert w visited))"

declare extendPathDir.simps [code]

text \<open>
  \<^verbatim>\<open>std::min(path.size() - 1, (size_t)minBranchLen)\<close>: the subtraction is on
  \<^verbatim>\<open>size_t\<close> and wraps around for an empty path.
\<close>

definition chopLen :: "nat \<Rightarrow> nat \<Rightarrow> nat" where
  "chopLen pathSize minBranchLen =
     min (if pathSize = 0 then 2 ^ 64 - 1 else pathSize - 1) minBranchLen"

text \<open>
  \<^verbatim>\<open>erase(first, last)\<close> on positions: defined when \<open>first \<le> last \<le> size\<close>.
\<close>

definition erase :: "'v list \<Rightarrow> nat \<Rightarrow> nat \<Rightarrow> error + 'v list" where
  "erase path first lst =
     (if first \<le> lst \<and> lst \<le> length path then Inr (take first path @ drop lst path)
      else Inl Undefined)"

definition extendDir ::
  "'v graph \<Rightarrow> Direction \<Rightarrow> nat \<Rightarrow> 'v list \<Rightarrow> 'v set \<Rightarrow> error + 'v list \<times> 'v set"
where
  "extendDir g dir minBranchLen path visited =
     (if path = [] then Inl Undefined
      else case extendPathDir g dir minBranchLen path visited of
             None \<Rightarrow> Inl NoReturn
           | Some r \<Rightarrow> Inr r)"

definition extendPath :: "'v list \<Rightarrow> 'v graph \<Rightarrow> nat \<Rightarrow> error + 'v list" where
  "extendPath path g minBranchLen =
     (let chopLen1 = chopLen (length path) minBranchLen in
      if chopLen1 > length path then Inl Undefined
      else case erase path (length path - chopLen1) (length path) of
        Inl e \<Rightarrow> Inl e
      | Inr path1 \<Rightarrow>
      (case extendDir g FORWARD minBranchLen path1 {} of
        Inl e \<Rightarrow> Inl e
      | Inr (path2, visited2) \<Rightarrow>
      (let chopLen2 = chopLen (length path2) minBranchLen in
       case erase path2 0 chopLen2 of
         Inl e \<Rightarrow> Inl e
       | Inr path3 \<Rightarrow>
       (case extendDir g REVERSE minBranchLen path3 visited2 of
          Inl e \<Rightarrow> Inl e
        | Inr (path4, visited4) \<Rightarrow> Inr path4))))"

section \<open>Trimming a sequence to its longest run of good k-mers\<close>

text \<open>
  The five variables of the loop of \<^verbatim>\<open>trimSeq\<close> are \<^verbatim>\<open>unsigned\<close>: numbers below
  \<open>2 ^ 32\<close>, whose arithmetic wraps.  \<open>u32\<close> is the conversion to that type.  The
  source marks a position that is not set by \<^verbatim>\<open>UINT_MAX\<close>.
\<close>

definition u32 :: "nat \<Rightarrow> nat" where
  "u32 n = n mod 2 ^ 32"

definition UNSET :: nat where
  "UNSET = 4294967295"

record TrimVars =
  prevPos :: nat
  matchStart :: nat
  matchLen :: nat
  maxMatchStart :: nat
  maxMatchLen :: nat

text \<open>
  The update that ends a match, which the source has twice (in the loop and after it):
  \<^verbatim>\<open>if (matchStart != UNSET && matchLen > maxMatchLen) { ... }\<close>.
\<close>

definition recordMatch :: "TrimVars \<Rightarrow> TrimVars" where
  "recordMatch t =
     (if matchStart t \<noteq> UNSET \<and> matchLen t > maxMatchLen t
      then t\<lparr>maxMatchLen := matchLen t, maxMatchStart := matchStart t\<rparr>
      else t)"

text \<open>
  One turn of the loop at iterator position \<open>pos\<close>; \<open>hit pos\<close> is
  \<^verbatim>\<open>goodKmerSet.contains(*it)\<close> there.  The position enters the variables as an
  \<^verbatim>\<open>unsigned\<close>: \<^verbatim>\<open>it.pos() - prevPos\<close> is a subtraction that wraps,
  \<^verbatim>\<open>matchLen++\<close> an increment that wraps.  The last update is the
  \<^verbatim>\<open>prevPos=it.pos()\<close> of the loop header.  The header that declares
  \<^verbatim>\<open>pos()\<close> is not among the sources; for positions below \<open>2 ^ 32 - 1\<close>, the only
  ones that the properties proved below depend on, a wider result type gives the same
  values.
\<close>

definition trimSeq_step :: "(nat \<Rightarrow> bool) \<Rightarrow> TrimVars \<Rightarrow> nat \<Rightarrow> TrimVars" where
  "trimSeq_step hit t pos =
     (let t1 = (if \<not> hit pos \<or> (prevPos t \<noteq> UNSET \<and> u32 (u32 pos + 2 ^ 32 - prevPos t) > 1)
                then (recordMatch t)\<lparr>matchStart := UNSET, matchLen := 0\<rparr>
                else t);
          t2 = (if hit pos
                then t1\<lparr>matchStart := (if matchStart t1 = UNSET then u32 pos else matchStart t1),
                        matchLen := u32 (matchLen t1 + 1)\<rparr>
                else t1)
      in t2\<lparr>prevPos := u32 pos\<rparr>)"

definition trimInit :: TrimVars where
  "trimInit = \<lparr>prevPos = UNSET, matchStart = UNSET, matchLen = 0,
                maxMatchStart = UNSET, maxMatchLen = 0\<rparr>"

text \<open>\<^verbatim>\<open>std::string::substr(pos, n)\<close> throws when \<open>pos\<close> is beyond the end.\<close>

definition substr :: "string \<Rightarrow> nat \<Rightarrow> nat \<Rightarrow> error + string" where
  "substr s pos n = (if pos > length s then Inl OutOfRange else Inr (take n (drop pos s)))"

text \<open>
  The length given to \<^verbatim>\<open>substr\<close>, \<^verbatim>\<open>maxMatchLen + k - 1\<close>, is computed in
  \<^verbatim>\<open>unsigned\<close> as well; \<open>maxMatchLen\<close> is not zero there, so only the sum can wrap.
\<close>

definition trimSeq :: "hasher \<Rightarrow> Sequence \<Rightarrow> BloomFilter \<Rightarrow> error + Sequence" where
  "trimSeq rh seq goodKmerSet =
     (let k = m_kmerSize goodKmerSet; numHashes = m_hashNum goodKmerSet in
      if length seq < k then Inr []
      else
        let hit = (\<lambda>pos. bf_contains goodKmerSet (rh numHashes (kmerAt seq k pos)));
            t = recordMatch (foldl (trimSeq_step hit) trimInit (kmerPositions seq k))
        in if maxMatchLen t = 0 then Inr []
           else substr seq (maxMatchStart t) (u32 (maxMatchLen t + k - 1)))"

section \<open>The assembly driver\<close>

record FastaRecord =
  rec_id :: string
  rec_seq :: Sequence

record AssemblyCounters =
  readsExtended :: nat
  readsProcessed :: nat
  basesAssembled :: nat

text \<open>
  What \<^verbatim>\<open>assemble\<close> changes while it runs: the filter of the k-mers assembled so far,
  the identifier of the next contig, the records written to the output stream, and the
  counters.
\<close>

record AssemblyState =
  assembledKmerSet :: BloomFilter
  contigID :: nat
  out :: "FastaRecord list"
  counters :: AssemblyCounters

text \<open>The decimal digits of a number, as the stream prints \<^verbatim>\<open>contigID\<close>.\<close>

fun decimal :: "nat \<Rightarrow> string" where
  "decimal n =
     (if n < 10 then [char_of (48 + n)]
      else decimal (n div 10) @ [char_of (48 + n mod 10)])"

declare decimal.simps [simp del]

text \<open>
  The block under \<^verbatim>\<open>#pragma omp critical(out)\<close>: the second test against the
  assembled filter, and, when it fails, the insertion of the contig's k-mers, the record
  written to the stream and the counter of bases.  No other thread is inside the block at
  the same time, so it is one step on the state.  (\<^verbatim>\<open>unsigned len = seq.length()\<close>
  keeps the low 32 bits of the length.)
\<close>

definition emitContig ::
  "hasher \<Rightarrow> AssemblyState \<Rightarrow> FastaRecord \<Rightarrow> Sequence \<Rightarrow> error + AssemblyState"
where
  "emitContig rh st r seq =
     (case allKmersInBloom rh seq (assembledKmerSet st) of
        Inl e \<Rightarrow> Inl e
      | Inr covered \<Rightarrow>
          if covered then Inr st
          else Inr (st\<lparr>assembledKmerSet := addKmersToBloom rh seq (assembledKmerSet st),
                       contigID := contigID st + 1,
                       out := out st @
                         [\<lparr>rec_id = decimal (contigID st) @ '' read:'' @ rec_id r,
                           rec_seq = seq\<rparr>],
                       counters := (counters st)
                         \<lparr>basesAssembled :=
                            basesAssembled (counters st) + length seq mod 2 ^ 32\<rparr>\<rparr>))"

text \<open>
  The loop over the split paths.  \<open>first\<close> says that the path at the head of the list
  is \<^verbatim>\<open>paths.begin()\<close>; the path is \<^verbatim>\<open>paths.end()-1\<close> when no path follows it.
\<close>

fun assemblePaths ::
  "hasher \<Rightarrow> V graph \<Rightarrow> nat \<Rightarrow> FastaRecord \<Rightarrow> bool \<Rightarrow> V list list \<Rightarrow> AssemblyState
     \<Rightarrow> error + AssemblyState"
where
  "assemblePaths rh graph minBranchLen r first [] st = Inr st"
| "assemblePaths rh graph minBranchLen r first (p # ps) st =
     (case (if first \<or> ps = [] then extendPath p graph minBranchLen else Inr p) of
        Inl e \<Rightarrow> Inl e
      | Inr p1 \<Rightarrow>
      (case pathToSeq p1 of
         Inl e \<Rightarrow> Inl e
       | Inr seq \<Rightarrow>
       (case emitContig rh st r seq of
          Inl e \<Rightarrow> Inl e
        | Inr st1 \<Rightarrow> assemblePaths rh graph minBranchLen r False ps st1)))"

text \<open>The three tests that set \<^verbatim>\<open>skip\<close>, in the order of the source.\<close>

definition skipRead ::
  "hasher \<Rightarrow> BloomFilter \<Rightarrow> AssemblyState \<Rightarrow> FastaRecord \<Rightarrow> error + bool"
where
  "skipRead rh goodKmerSet st r =
     (if length (rec_seq r) < m_kmerSize goodKmerSet then Inr True
      else case allKmersInBloom rh (rec_seq r) goodKmerSet of
        Inl e \<Rightarrow> Inl e
      | Inr allGood \<Rightarrow>
          if \<not> allGood then Inr True
          else allKmersInBloom rh (rec_seq r) (assembledKmerSet st))"

text \<open>
  The body of the loop over the reads, for one read: \<open>k\<close>, \<open>numHashes\<close> and
  \<open>minBranchLen = k + 1\<close> are those of \<^verbatim>\<open>assemble\<close>.  The graph is the one
  that \<^verbatim>\<open>assemble\<close> builds over the good filter; the model takes it as an argument.
  The progress messages on the error stream are left out.
\<close>

definition processRead ::
  "hasher \<Rightarrow> BloomFilter \<Rightarrow> V graph \<Rightarrow> AssemblyState \<Rightarrow> FastaRecord \<Rightarrow> error + AssemblyState"
where
  "processRead rh goodKmerSet graph st r =
     (let k = m_kmerSize goodKmerSet;
          numHashes = m_hashNum goodKmerSet;
          minBranchLen = k + 1
      in case skipRead rh goodKmerSet st r of
           Inl e \<Rightarrow> Inl e
         | Inr skip \<Rightarrow>
         (case (if skip then Inr st
                else case seqToPath rh (rec_seq r) k numHashes of
                  Inl e \<Rightarrow> Inl e
                | Inr path \<Rightarrow>
                (case assemblePaths rh graph minBranchLen r True
                        (splitPath path graph minBranchLen) st of
                   Inl e \<Rightarrow> Inl e
                 | Inr st1 \<Rightarrow>
                     Inr (st1\<lparr>counters := (counters st1)
                            \<lparr>readsExtended := readsExtended (counters st1) + 1\<rparr>\<rparr>))) of
            Inl e \<Rightarrow> Inl e
          | Inr st2 \<Rightarrow>
              Inr (st2\<lparr>counters := (counters st2)
                     \<lparr>readsProcessed := readsProcessed (counters st2) + 1\<rparr>\<rparr>)))"

text \<open>
  The loop over the reads, for the records that the FASTA reader delivers (case folded),
  in the order in which a single worker takes them from the input.  With several workers
  the bodies overlap, but the output blocks still follow each other one at a time.  The
  assertions on the state of the streams (\<^verbatim>\<open>id.good()\<close>, \<^verbatim>\<open>in.eof()\<close>) are left
  out.
\<close>

fun assembleReads ::
  "hasher \<Rightarrow> BloomFilter \<Rightarrow> V graph \<Rightarrow> AssemblyState \<Rightarrow> FastaRecord list \<Rightarrow> error + AssemblyState"
where
  "assembleReads rh goodKmerSet graph st [] = Inr st"
| "assembleReads rh goodKmerSet graph st (r # rs) =
     (case processRead rh goodKmerSet graph st r of
        Inl e \<Rightarrow> Inl e
      | Inr st1 \<Rightarrow> assembleReads rh goodKmerSet graph st1 rs)"

definition assemble ::
  "hasher \<Rightarrow> FastaRecord list \<Rightarrow> 64 word \<Rightarrow> BloomFilter \<Rightarrow> V graph \<Rightarrow> error + AssemblyState"
where
  "assemble rh reads genomeSize goodKmerSet graph =
     (case roundUpToMultiple genomeSize 64 of
        None \<Rightarrow> Inl Undefined
      | Some sz \<Rightarrow>
          assembleReads rh goodKmerSet graph
            \<lparr>assembledKmerSet =
               newBloomFilter (unat sz) (m_hashNum goodKmerSet) (m_kmerSize goodKmerSet),
             contigID = 0, out = [],
             counters = \<lparr>readsExtended = 0, readsProcessed = 0, basesAssembled = 0\<rparr>\<rparr>
            reads)"

section \<open>Notions used to state the properties\<close>

text \<open>
  A vertex is branching when \<^verbatim>\<open>splitPath\<close> finds more than one true branch at it, in
  either direction: the test \<^verbatim>\<open>inDegree > 1 || outDegree > 1\<close> of the loop.
\<close>

definition branching :: "'v graph \<Rightarrow> nat \<Rightarrow> 'v \<Rightarrow> bool" where
  "branching dbg minBranchLen v =
     (length (dbg v REVERSE minBranchLen) > 1 \<or> length (dbg v FORWARD minBranchLen) > 1)"



text \<open>
  A graph on numbers for the examples: every vertex \<open>v\<close> has the one neighbour
  \<open>v + 1\<close>, and the vertices in \<open>bs\<close> have a second true branch going forward.
\<close>

definition exampleGraph :: "nat set \<Rightarrow> nat graph" where
  "exampleGraph bs =
     (\<lambda>v dir n. if v \<in> bs \<and> dir = FORWARD then [v + 1, v + 100] else [v + 1])"

text \<open>
  A second graph for the examples, a chain \<open>0 - 1 - ... - m\<close>: going forward the one
  neighbour of \<open>v < m\<close> is \<open>v + 1\<close>, in reverse the one neighbour of \<open>0 < v \<le> m\<close>
  is \<open>v - 1\<close>.
\<close>

definition chainGraph :: "nat \<Rightarrow> nat graph" where
  "chainGraph m =
     (\<lambda>v dir n. case dir of
         FORWARD \<Rightarrow> if v < m then [v + 1] else []
       | REVERSE \<Rightarrow> if 0 < v \<and> v \<le> m then [v - 1] else [])"

text \<open>
  For \<^verbatim>\<open>trimSeq\<close>: a position is good when the iterator visits it (a full window of
  bases starts there) and the filter contains its k-mer.  A good run is a non-empty
  range of consecutive good positions, given by its first position and the number of its
  k-mers; the substring it covers has that number plus \<open>k - 1\<close> characters.
\<close>

definition goodAt :: "hasher \<Rightarrow> Sequence \<Rightarrow> BloomFilter \<Rightarrow> nat \<Rightarrow> bool" where
  "goodAt rh seq F pos =
     (pos + m_kmerSize F \<le> length seq \<and>
      list_all isACGT (kmerAt seq (m_kmerSize F) pos) \<and>
      bf_contains F (rh (m_hashNum F) (kmerAt seq (m_kmerSize F) pos)))"

definition goodRun :: "hasher \<Rightarrow> Sequence \<Rightarrow> BloomFilter \<Rightarrow> nat \<Rightarrow> nat \<Rightarrow> bool" where
  "goodRun rh seq F s L = (0 < L \<and> list_all (goodAt rh seq F) [s ..< s + L])"

text \<open>
  For the proofs about \<^verbatim>\<open>trimSeq\<close>: the same loop over unbounded natural numbers, with
  \<open>None\<close> for a position that is not set.  This is what the loop of the program computes
  as long as none of its variables wraps or meets \<^verbatim>\<open>UINT_MAX\<close>; \<open>wrapped\<close> gives the
  variables of the program that stand for those of the unbounded loop.
\<close>

record TrimVarsN =
  prevPosN :: "nat option"
  matchStartN :: "nat option"
  matchLenN :: nat
  maxMatchStartN :: "nat option"
  maxMatchLenN :: nat

definition recordMatchN :: "TrimVarsN \<Rightarrow> TrimVarsN" where
  "recordMatchN t =
     (if matchStartN t \<noteq> None \<and> matchLenN t > maxMatchLenN t
      then t\<lparr>maxMatchLenN := matchLenN t, maxMatchStartN := matchStartN t\<rparr>
      else t)"

definition trimStepN :: "(nat \<Rightarrow> bool) \<Rightarrow> TrimVarsN \<Rightarrow> nat \<Rightarrow> TrimVarsN" where
  "trimStepN hit t pos =
     (let t1 = (if \<not> hit pos \<or> (case prevPosN t of None \<Rightarrow> False | Some pp \<Rightarrow> pos - pp > 1)
                then (recordMatchN t)\<lparr>matchStartN := None, matchLenN := 0\<rparr>
                else t);
          t2 = (if hit pos
                then t1\<lparr>matchStartN := (case matchStartN t1 of None \<Rightarrow> Some pos | Some s \<Rightarrow> Some s),
                        matchLenN := matchLenN t1 + 1\<rparr>
                else t1)
      in t2\<lparr>prevPosN := Some pos\<rparr>)"

definition trimInitN :: TrimVarsN where
  "trimInitN = \<lparr>prevPosN = None, matchStartN = None, matchLenN = 0,
                 maxMatchStartN = None, maxMatchLenN = 0\<rparr>"

definition unsignedPos :: "nat option \<Rightarrow> nat" where
  "unsignedPos p = (case p of None \<Rightarrow> UNSET | Some n \<Rightarrow> n)"

definition wrapped :: "TrimVarsN \<Rightarrow> TrimVars" where
  "wrapped t = \<lparr>prevPos = unsignedPos (prevPosN t), matchStart = unsignedPos (matchStartN t),
                 matchLen = matchLenN t, maxMatchStart = unsignedPos (maxMatchStartN t),
                 maxMatchLen = maxMatchLenN t\<rparr>"

text \<open>
  The invariant of the loop of \<^verbatim>\<open>trimSeq\<close>, for a predicate \<open>G\<close> on positions and
  the frontier \<open>n\<close>, the position after the last one visited.  \<open>runIn G s L\<close>: the
  \<open>L\<close> positions from \<open>s\<close> on satisfy \<open>G\<close>.  \<open>curStart\<close>: where the open match starts
  (the frontier when no match is open).  \<open>dominated\<close>: a run is shorter than the
  recorded one, or as long and not before it.  \<open>maxInv G c\<close>: the recorded match is a
  run that ends at or before \<open>c\<close> and dominates every run that does.
\<close>

definition runIn :: "(nat \<Rightarrow> bool) \<Rightarrow> nat \<Rightarrow> nat \<Rightarrow> bool" where
  "runIn G s L = (\<forall>p. s \<le> p \<and> p < s + L \<longrightarrow> G p)"

definition curStart :: "nat \<Rightarrow> TrimVarsN \<Rightarrow> nat" where
  "curStart n t = (case matchStartN t of None \<Rightarrow> n | Some s \<Rightarrow> s)"

definition dominated :: "TrimVarsN \<Rightarrow> nat \<Rightarrow> nat \<Rightarrow> bool" where
  "dominated t s L =
     (L < maxMatchLenN t \<or> (L = maxMatchLenN t \<and> (\<exists>ms. maxMatchStartN t = Some ms \<and> ms \<le> s)))"

definition maxInv :: "(nat \<Rightarrow> bool) \<Rightarrow> nat \<Rightarrow> TrimVarsN \<Rightarrow> bool" where
  "maxInv G c t =
     ((maxMatchStartN t = None \<longrightarrow> maxMatchLenN t = 0) \<and>
      (\<forall>ms. maxMatchStartN t = Some ms \<longrightarrow>
         0 < maxMatchLenN t \<and> ms + maxMatchLenN t \<le> c \<and> runIn G ms (maxMatchLenN t)) \<and>
      (\<forall>s L. 0 < L \<and> s + L \<le> c \<and> runIn G s L \<longrightarrow> dominated t s L))"

definition trimInv :: "(nat \<Rightarrow> bool) \<Rightarrow> nat \<Rightarrow> TrimVarsN \<Rightarrow> bool" where
  "trimInv G n t =
     ((prevPosN t = None \<longrightarrow> n = 0 \<and> matchStartN t = None) \<and>
      (\<forall>pp. prevPosN t = Some pp \<longrightarrow> n = pp + 1) \<and>
      curStart n t \<le> n \<and> (matchStartN t \<noteq> None \<longrightarrow> curStart n t < n) \<and>
      matchLenN t = n - curStart n t \<and>
      runIn G (curStart n t) (n - curStart n t) \<and>
      (0 < curStart n t \<longrightarrow> \<not> G (curStart n t - 1)) \<and>
      maxInv G (curStart n t) t)"

text \<open>
  A hash function and a filter for the examples.  The hash reads a k-mer as a number in
  base 4 and adds the index of the hash; the filter has 64 bits, one hash and \<open>k = 4\<close>,
  and holds the 4-mers of \<open>ACGTACGTAC\<close>.
\<close>

definition exampleHash :: hasher where
  "exampleHash numHashes w =
     map (\<lambda>i. foldl (\<lambda>h c. 4 * h +
            (if c = CHR ''A'' then 0 else if c = CHR ''C'' then 1
             else if c = CHR ''G'' then 2 else 3)) i w)
       [0 ..< numHashes]"

definition exampleFilter :: BloomFilter where
  "exampleFilter = \<lparr>m_filter = {6, 27, 44, 49}, m_size = 64, m_hashNum = 1, m_kmerSize = 4\<rparr>"

text \<open>
  A sequence on which the variables of \<^verbatim>\<open>trimSeq\<close> do wrap: \<open>2 ^ 32 + 2\<close> times the
  base \<open>A\<close>, which has \<open>2 ^ 32 - 1\<close> positions for a 4-mer, and a filter that holds the
  4-mer \<open>AAAA\<close>.
\<close>

definition longRead :: Sequence where
  "longRead = replicate 4294967298 CHR ''A''"

definition polyAFilter :: BloomFilter where
  "polyAFilter = \<lparr>m_filter = {0}, m_size = 64, m_hashNum = 1, m_kmerSize = 4\<rparr>"

text \<open>
  For \<^verbatim>\<open>assemble\<close>: the invariant that the output block keeps.  No sequence has been
  written twice, and every sequence written has all its k-mers in the assembled filter.
\<close>

definition dedupInv :: "hasher \<Rightarrow> AssemblyState \<Rightarrow> bool" where
  "dedupInv rh st =
     (distinct (map rec_seq (out st)) \<and>
      (\<forall>c\<in>set (out st). allKmersInBloom rh (rec_seq c) (assembledKmerSet st) = Inr True))"

text \<open>
  For the examples of \<^verbatim>\<open>assemble\<close>: a graph in which no vertex has a true branch, four
  reads, and the state in which \<^verbatim>\<open>assemble\<close> starts for a genome size of 64 and the
  example filter.
\<close>

definition deadEndGraph :: "V graph" where
  "deadEndGraph = (\<lambda>v dir n. [])"

definition exampleReads :: "FastaRecord list" where
  "exampleReads = [\<lparr>rec_id = ''r1'', rec_seq = ''ACGTACGTAC''\<rparr>,
                   \<lparr>rec_id = ''r2'', rec_seq = ''ACGTACGTAC''\<rparr>,
                   \<lparr>rec_id = ''r3'', rec_seq = ''ACG''\<rparr>,
                   \<lparr>rec_id = ''r4'', rec_seq = ''ACGTTT''\<rparr>]"

definition exampleState :: AssemblyState where
  "exampleState = \<lparr>assembledKmerSet = newBloomFilter 64 1 4, contigID = 0, out = [],
     counters = \<lparr>readsExtended = 0, readsProcessed = 0, basesAssembled = 0\<rparr>\<rparr>"

text \<open>
  Two reads with a character that is no base.  In both, every window of four bases is a
  4-mer of \<open>ACGTACGTAC\<close>, so the iterator, which passes over the windows that hold the
  \<open>X\<close>, delivers only k-mers of the example filter.
\<close>

definition nonBaseRead :: FastaRecord where
  "nonBaseRead = \<lparr>rec_id = ''s2'', rec_seq = ''ACGTAXGTAC''\<rparr>"

definition nonBaseRead2 :: FastaRecord where
  "nonBaseRead2 = \<lparr>rec_id = ''s3'', rec_seq = ''ACGTACGTACXACGTACGTAC''\<rparr>"

section \<open>Properties of \<^verbatim>\<open>roundUpToMultiple\<close>\<close>

lemma roundUp_nat_eq:
  fixes n b :: nat
  shows "n + b - n mod b = (n div b + 1) * b"
proof -
  have "n div b * b + n mod b = n" by simp
  then have "n - n mod b = n div b * b" by linarith
  moreover have "n mod b \<le> n" by simp
  ultimately have "n + b - n mod b = n div b * b + b" by linarith
  then show ?thesis by simp
qed

lemma roundUp_nat_least:
  fixes n b m :: nat
  assumes r: "n mod b \<noteq> 0" and d: "b dvd m" and le: "n \<le> m"
  shows "(n div b + 1) * b \<le> m"
proof -
  from d obtain q where m: "m = b * q" by (auto simp: dvd_def)
  have "n div b < q"
  proof (rule ccontr)
    assume "\<not> n div b < q"
    then have "q \<le> n div b" by simp
    then have "b * q \<le> b * (n div b)" by simp
    moreover have "b * (n div b) + n mod b = n" by simp
    ultimately have "b * q < n" using r by linarith
    then show False using le m by simp
  qed
  then have "n div b + 1 \<le> q" by simp
  then have "(n div b + 1) * b \<le> q * b" by (rule mult_le_mono1)
  then show ?thesis unfolding m by (simp add: mult.commute)
qed

lemma roundUp_unat:
  fixes num base :: "'a::len word"
  assumes "unat num + unat base - unat num mod unat base < 2 ^ LENGTH('a)"
  shows "unat (num + base - num mod base) = unat num + unat base - unat num mod unat base"
proof -
  have le: "unat num mod unat base \<le> unat num + unat base"
    by (meson mod_less_eq_dividend trans_le_add1)
  have "num + base - num mod base = of_nat (unat num + unat base - unat num mod unat base)"
    using le by (simp add: of_nat_diff unat_mod_distrib [symmetric])
  then show ?thesis using assms by (simp add: of_nat_inverse)
qed

text \<open>
  C8.  \<^verbatim>\<open>roundUpToMultiple\<close> always returns a value: the remainder is never taken with a
  zero divisor.  For \<open>base = 0\<close> the value is \<open>num\<close>.  For \<open>base > 0\<close>, provided
  that some multiple of \<open>base\<close> at or above \<open>num\<close> fits into the integer type, the
  value is the smallest multiple of \<open>base\<close> that is greater than or equal to \<open>num\<close>.
\<close>

theorem roundUpToMultiple_smallest_multiple:
  fixes num base :: "'a::len word"
  shows "\<exists>r. roundUpToMultiple num base = Some r \<and>
     (base = 0 \<longrightarrow> r = num) \<and>
     (base \<noteq> 0 \<longrightarrow> (\<exists>m. unat base dvd m \<and> unat num \<le> m \<and> m < 2 ^ LENGTH('a)) \<longrightarrow>
        unat base dvd unat r \<and> num \<le> r \<and>
        (\<forall>m. unat base dvd m \<and> unat num \<le> m \<longrightarrow> unat r \<le> m))"
proof (cases "base = 0")
  case True
  then show ?thesis by (simp add: roundUpToMultiple_def)
next
  case nz: False
  show ?thesis
  proof (cases "num mod base = 0")
    case True
    then have "unat num mod unat base = 0"
      by (metis unat_mod_distrib unat_0)
    then have "unat base dvd unat num" by (simp add: dvd_eq_mod_eq_0)
    then show ?thesis using nz True
      by (simp add: roundUpToMultiple_def umod_def)
  next
    case False
    let ?n = "unat num" and ?b = "unat base"
    let ?r = "num + base - num mod base"
    have res: "roundUpToMultiple num base = Some ?r"
      using nz False by (simp add: roundUpToMultiple_def umod_def)
    have rem: "?n mod ?b \<noteq> 0"
      using False by (metis unat_mod_distrib unat_0 unat_eq_zero word_arith_nat_mod of_nat_0)
    have "unat base dvd unat ?r \<and> num \<le> ?r \<and>
        (\<forall>m. unat base dvd m \<and> unat num \<le> m \<longrightarrow> unat ?r \<le> m)"
      if ex: "\<exists>m. ?b dvd m \<and> ?n \<le> m \<and> m < 2 ^ LENGTH('a)"
    proof -
      from ex obtain m where m: "?b dvd m" "?n \<le> m" "m < 2 ^ LENGTH('a)" by blast
      have "(?n div ?b + 1) * ?b \<le> m" using rem m(1,2) by (rule roundUp_nat_least)
      then have small: "?n + ?b - ?n mod ?b < 2 ^ LENGTH('a)"
        using m(3) by (simp only: roundUp_nat_eq)
      have u: "unat ?r = (?n div ?b + 1) * ?b"
        using roundUp_unat [OF small] by (simp only: roundUp_nat_eq)
      have "0 < ?b" using nz by (simp add: unat_gt_0)
      then have "?n < ?b + ?n div ?b * ?b" by (rule dividend_less_div_times)
      then have "?n \<le> (?n div ?b + 1) * ?b" by simp
      then have "num \<le> ?r" using u by (simp add: word_le_nat_alt)
      moreover have "?b dvd unat ?r" using u by simp
      moreover have "\<forall>m. ?b dvd m \<and> ?n \<le> m \<longrightarrow> unat ?r \<le> m"
        unfolding u using roundUp_nat_least [OF rem] by blast
      ultimately show ?thesis by blast
    qed
    then show ?thesis using res nz by simp
  qed
qed

theorem roundUpToMultiple_smallest_multiple_witness:
  "(64 :: 64 word) \<noteq> 0 \<and>
   (\<exists>m. unat (64 :: 64 word) dvd m \<and> unat (100 :: 64 word) \<le> m \<and> m < 2 ^ LENGTH(64)) \<and>
   (\<exists>r. roundUpToMultiple (100 :: 64 word) 64 = Some r \<and> unat (64 :: 64 word) dvd unat r \<and>
        100 \<le> r \<and> (\<forall>m. unat (64 :: 64 word) dvd m \<and> unat (100 :: 64 word) \<le> m \<longrightarrow> unat r \<le> m))"
proof -
  have nz: "(64 :: 64 word) \<noteq> 0" by simp
  have ex: "\<exists>m. unat (64 :: 64 word) dvd m \<and> unat (100 :: 64 word) \<le> m \<and> m < 2 ^ LENGTH(64)"
    by (rule exI [of _ 128]) simp
  from roundUpToMultiple_smallest_multiple [of "100 :: 64 word" 64] nz ex
  show ?thesis by blast
qed

text \<open>
  Without that proviso the sum wraps around: the result for \<open>2\<^sup>6\<^sup>4 - 1\<close> and 64 on
  64-bit words is 0, which is below \<open>num\<close>.
\<close>

theorem roundUpToMultiple_wraps_counterexample:
  "roundUpToMultiple (18446744073709551615 :: 64 word) 64 = Some 0 \<and>
   \<not> (18446744073709551615 :: 64 word) \<le> 0"
  by (simp add: roundUpToMultiple_def umod_def)

section \<open>Sequence to path and back\<close>

lemma kmerPositions_all:
  assumes "k \<le> length s" and "list_all isACGT s"
  shows "kmerPositions s k = [0 ..< length s - k + 1]"
proof -
  have "list_all isACGT (kmerAt s k pos)" for pos
    using assms(2) unfolding kmerAt_def list_all_iff
    by (meson in_set_dropD in_set_takeD)
  then show ?thesis using assms(1) by (simp add: kmerPositions_def)
qed

lemma last_kmerAt:
  assumes "0 < k" and "pos + k \<le> length s"
  shows "last (kmerAt s k pos) = s ! (pos + k - 1)"
proof -
  have len: "length (kmerAt s k pos) = k" using assms by (simp add: kmerAt_def)
  then have ne: "kmerAt s k pos \<noteq> []" using assms(1) by auto
  have "last (kmerAt s k pos) = kmerAt s k pos ! (k - 1)"
    using len ne by (simp add: last_conv_nth)
  also have "\<dots> = s ! (pos + k - 1)"
    using assms by (simp add: kmerAt_def)
  finally show ?thesis .
qed

lemma last_bases_eq_drop:
  assumes "0 < k" and "k \<le> length s"
  shows "map (\<lambda>pos. last (kmerAt s k pos)) [Suc 0 ..< length s - k + 1] = drop k s"
proof (rule nth_equalityI)
  show "length (map (\<lambda>pos. last (kmerAt s k pos)) [Suc 0 ..< length s - k + 1]) = length (drop k s)"
    by (simp del: upt_Suc)
next
  fix i
  assume "i < length (map (\<lambda>pos. last (kmerAt s k pos)) [Suc 0 ..< length s - k + 1])"
  then have i: "i < length s - k" by (simp del: upt_Suc)
  then have "Suc i + k \<le> length s" by simp
  then have "last (kmerAt s k (Suc i)) = s ! (Suc i + k - 1)"
    using assms(1) by (rule last_kmerAt [rotated])
  moreover have "[Suc 0 ..< length s - k + 1] ! i = Suc i"
    using i by (simp del: upt_Suc)
  ultimately show "map (\<lambda>pos. last (kmerAt s k pos)) [Suc 0 ..< length s - k + 1] ! i = drop k s ! i"
    using i assms by (simp add: add.commute del: upt_Suc)
qed

text \<open>
  C2.  For a string \<open>s\<close> of the characters A, C, G, T with \<open>|s| \<ge> k\<close> (and \<open>k\<close> a k-mer
  size, so \<open>k \<ge> 1\<close>), whatever the number of hashes and the hash function:
  \<^verbatim>\<open>seqToPath\<close> returns a path, and \<^verbatim>\<open>pathToSeq\<close> of this path is \<open>s\<close>.
\<close>

theorem pathToSeq_seqToPath:
  assumes "0 < k" and "k \<le> length s" and "list_all isACGT s"
  shows "\<exists>path. seqToPath rh s k numHashes = Inr path \<and> pathToSeq path = Inr s"
proof -
  let ?f = "\<lambda>pos. (Kmer (kmerAt s k pos), rh numHashes (kmerAt s k pos))"
  have pos: "kmerPositions s k = 0 # [Suc 0 ..< length s - k + 1]"
    using kmerPositions_all [OF assms(2,3)] by (simp add: upt_rec)
  have path: "seqToPath rh s k numHashes = Inr (?f 0 # map ?f [Suc 0 ..< length s - k + 1])"
    using assms(2) by (simp add: seqToPath_def pos)
  have "pathToSeq (?f 0 # map ?f [Suc 0 ..< length s - k + 1])
      = Inr (kmerAt s k 0 @ map (\<lambda>pos. last (kmerAt s k pos)) [Suc 0 ..< length s - k + 1])"
    by (simp add: pathToSeq_def getLastBaseChar_def comp_def)
  also have "\<dots> = Inr s"
    using last_bases_eq_drop [OF assms(1,2)] by (simp add: kmerAt_def)
  finally show ?thesis using path by simp
qed

theorem pathToSeq_seqToPath_witness:
  "(0::nat) < 4 \<and> 4 \<le> length ''ACGTACGTAC'' \<and> list_all isACGT ''ACGTACGTAC'' \<and>
   (\<exists>path. seqToPath (\<lambda>n w. replicate n (length w)) ''ACGTACGTAC'' 4 1 = Inr path \<and>
      pathToSeq path = Inr ''ACGTACGTAC'')"
proof -
  have h: "(0::nat) < 4" "4 \<le> length ''ACGTACGTAC''" "list_all isACGT ''ACGTACGTAC''"
    by (simp_all add: isACGT_def)
  from pathToSeq_seqToPath [OF h, of "\<lambda>n w. replicate n (length w)" 1] h
  show ?thesis by blast
qed

section \<open>Properties of \<^verbatim>\<open>splitPath\<close>\<close>
















text \<open>
  C4.  When the first vertex of the path is branching, the loop closes a segment that
  holds this vertex alone: the test \<^verbatim>\<open>currentPath.size() > 1\<close> guards the segment
  left after the loop only.
\<close>

theorem splitPath_leading_singleton:
  "branching (exampleGraph {0}) 5 (0 :: nat) \<and>
   splitPath [0 :: nat, 1] (exampleGraph {0}) 5 = [[0], [0, 1]] \<and>
   length (hd (splitPath [0 :: nat, 1] (exampleGraph {0}) 5)) < 2"
  by (simp add: splitPath_def exampleGraph_def branching_def)

section \<open>Properties of \<^verbatim>\<open>extendPath\<close>\<close>

lemma extendPathDir_returns:
  assumes "finite U" and "\<forall>v d. set (g v d n) \<subseteq> U"
  shows "\<exists>r. extendPathDir g dir n path visited = Some r"
proof (induction "card (U - visited)" arbitrary: path visited rule: less_induct)
  case less
  show ?case
  proof (cases "g (pathEnd dir path) dir n")
    case Nil
    then show ?thesis by (subst extendPathDir.simps) simp
  next
    case (Cons w ws)
    show ?thesis
    proof (cases "ws \<noteq> [] \<or> w \<in> visited")
      case True
      then show ?thesis using Cons by (subst extendPathDir.simps) auto
    next
      case False
      have "w \<in> U" using assms(2) Cons by (metis list.set_intros(1) subsetD)
      then have "U - insert w visited \<subset> U - visited" using False by auto
      then have "card (U - insert w visited) < card (U - visited)"
        using assms(1) by (simp add: psubset_card_mono)
      from less [OF this] obtain r where
        "extendPathDir g dir n (pathPush dir w path) (insert w visited) = Some r" by blast
      then show ?thesis using Cons False by (subst extendPathDir.simps) simp
    qed
  qed
qed


lemma extendPathDir_adds:
  assumes "extendPathDir g dir n path visited = Some r"
  shows "\<exists>added. fst r = (case dir of FORWARD \<Rightarrow> path @ added | REVERSE \<Rightarrow> added @ path)"
proof (rule extendPathDir.raw_induct
    [where P = "\<lambda>g dir n path visited r.
       \<exists>added. fst r = (case dir of FORWARD \<Rightarrow> path @ added | REVERSE \<Rightarrow> added @ path)",
     OF _ assms])
  fix f :: "'a graph \<Rightarrow> Direction \<Rightarrow> nat \<Rightarrow> 'a list \<Rightarrow> 'a set \<Rightarrow> ('a list \<times> 'a set) option"
  fix g dir n path visited r
  assume IH: "\<And>g dir n path visited r. f g dir n path visited = Some r \<Longrightarrow>
      \<exists>added. fst r = (case dir of FORWARD \<Rightarrow> path @ added | REVERSE \<Rightarrow> added @ path)"
    and eq: "(case g (pathEnd dir path) dir n of
        [] \<Rightarrow> Some (path, visited)
      | w # ws \<Rightarrow>
          if ws \<noteq> [] then Some (path, visited)
          else if w \<in> visited then Some (path, visited)
          else f g dir n (pathPush dir w path) (insert w visited)) = Some r"
  show "\<exists>added. fst r = (case dir of FORWARD \<Rightarrow> path @ added | REVERSE \<Rightarrow> added @ path)"
  proof (cases "g (pathEnd dir path) dir n")
    case Nil
    with eq have "r = (path, visited)" by simp
    then show ?thesis by (cases dir) simp_all
  next
    case (Cons w ws)
    show ?thesis
    proof (cases "ws \<noteq> [] \<or> w \<in> visited")
      case True
      with eq Cons have "r = (path, visited)" by (auto split: if_splits)
      then show ?thesis by (cases dir) simp_all
    next
      case False
      with eq Cons have "f g dir n (pathPush dir w path) (insert w visited) = Some r" by simp
      from IH [OF this] obtain added where
        "fst r = (case dir of FORWARD \<Rightarrow> pathPush dir w path @ added
                            | REVERSE \<Rightarrow> added @ pathPush dir w path)" by blast
      then show ?thesis by (cases dir) (auto simp: pathPush_def)
    qed
  qed
qed

lemma extendDir_adds:
  assumes "extendDir g dir n path visited = Inr (path', visited')"
  shows "path \<noteq> [] \<and>
    (\<exists>added. path' = (case dir of FORWARD \<Rightarrow> path @ added | REVERSE \<Rightarrow> added @ path))"
proof -
  from assms have ne: "path \<noteq> []" by (auto simp: extendDir_def split: if_splits)
  with assms have "extendPathDir g dir n path visited = Some (path', visited')"
    by (auto simp: extendDir_def split: option.splits)
  from extendPathDir_adds [OF this] ne show ?thesis by simp
qed

lemma extendDir_nonempty:
  assumes "extendDir g dir n path visited = Inr (path', visited')"
  shows "path' \<noteq> []"
  using extendDir_adds [OF assms] by (cases dir) auto

lemma extendDir_error:
  assumes "path \<noteq> []" and "extendDir g dir n path visited = Inl e"
  shows "e = NoReturn"
  using assms by (auto simp: extendDir_def split: option.splits)

lemma extendDir_returns:
  assumes "path \<noteq> []" and "finite U" and "\<forall>v d. set (g v d n) \<subseteq> U"
  shows "\<exists>r. extendDir g dir n path visited = Inr r"
proof -
  from assms(2,3) have "\<exists>r. extendPathDir g dir n path visited = Some r"
    by (rule extendPathDir_returns)
  then show ?thesis using assms(1) by (auto simp: extendDir_def)
qed

lemma chopLen_nonempty: "0 < m \<Longrightarrow> chopLen m n = min (m - 1) n"
  by (simp add: chopLen_def)

lemma erase_back:
  "c \<le> length path \<Longrightarrow> erase path (length path - c) (length path) = Inr (take (length path - c) path)"
  by (simp add: erase_def)

lemma erase_front:
  "c \<le> length path \<Longrightarrow> erase path 0 c = Inr (drop c path)"
  by (simp add: erase_def)

lemma extendPath_unfold:
  assumes "chopLen (length path) n = c1" and "c1 \<le> length path"
  shows "extendPath path g n =
    (case extendDir g FORWARD n (take (length path - c1) path) {} of
       Inl e \<Rightarrow> Inl e
     | Inr (path2, visited2) \<Rightarrow>
        (case erase path2 0 (chopLen (length path2) n) of
           Inl e \<Rightarrow> Inl e
         | Inr path3 \<Rightarrow>
            (case extendDir g REVERSE n path3 visited2 of
               Inl e \<Rightarrow> Inl e
             | Inr (path4, visited4) \<Rightarrow> Inr path4)))"
  using assms by (simp add: extendPath_def Let_def erase_def split: sum.splits prod.splits)

lemma erase_chop_front:
  assumes "path2 \<noteq> []"
  shows "erase path2 0 (chopLen (length path2) n) = Inr (drop (min (length path2 - 1) n) path2)"
proof -
  have "chopLen (length path2) n = min (length path2 - 1) n"
    using assms by (simp add: chopLen_nonempty)
  moreover have "min (length path2 - 1) n \<le> length path2" by simp
  ultimately show ?thesis by (simp only: erase_front)
qed

lemma chain_forward:
  "extendPathDir (chainGraph 9) FORWARD 2 [3, 4, 5] {}
     = Some ([3, 4, 5, 6, 7, 8, 9], {6, 7, 8, 9})"
  by ((subst extendPathDir.simps, simp add: chainGraph_def pathEnd_def pathPush_def insert_commute)+)

lemma chain_reverse:
  "extendPathDir (chainGraph 9) REVERSE 2 [5, 6, 7, 8, 9] {6, 7, 8, 9}
     = Some ([0, 1, 2, 3, 4, 5, 6, 7, 8, 9], {0, 1, 2, 3, 4, 6, 7, 8, 9})"
  by ((subst extendPathDir.simps, simp add: chainGraph_def pathEnd_def pathPush_def insert_commute)+)

lemma extendPath_steps:
  assumes "path \<noteq> []"
  shows "extendPath path g n =
    (case extendDir g FORWARD n (take (length path - min (length path - 1) n) path) {} of
       Inl e \<Rightarrow> Inl e
     | Inr (path2, visited2) \<Rightarrow>
        (case extendDir g REVERSE n (drop (min (length path2 - 1) n) path2) visited2 of
           Inl e \<Rightarrow> Inl e
         | Inr (path4, visited4) \<Rightarrow> Inr path4))"
proof -
  have c1: "chopLen (length path) n = min (length path - 1) n"
    using assms by (simp add: chopLen_nonempty)
  have le1: "min (length path - 1) n \<le> length path" by simp
  note u = extendPath_unfold [OF c1 le1, of g]
  show ?thesis
  proof (cases "extendDir g FORWARD n (take (length path - min (length path - 1) n) path) {}")
    case (Inl e)
    show ?thesis unfolding u Inl by simp
  next
    case (Inr r)
    obtain path2 visited2 where r: "r = (path2, visited2)" by (cases r)
    have ne2: "path2 \<noteq> []" using Inr r extendDir_nonempty by blast
    show ?thesis unfolding u Inr r by (simp add: erase_chop_front [OF ne2])
  qed
qed

lemma chopLen_bound: "0 < m \<Longrightarrow> chopLen m n \<le> m - 1"
  by (simp add: chopLen_def)

lemma extendPath_result:
  assumes "path \<noteq> []"
    and "extendDir g FORWARD n (take (length path - min (length path - 1) n) path) {}
           = Inr (path2, visited2)"
    and "extendDir g REVERSE n (drop (min (length path2 - 1) n) path2) visited2
           = Inr (path4, visited4)"
  shows "extendPath path g n = Inr path4"
  unfolding extendPath_steps [OF assms(1)] assms(2) using assms(3) by simp

lemma chop_front_nonempty: "p \<noteq> [] \<Longrightarrow> drop (min (length p - 1) n) p \<noteq> []"
  by (cases p) auto

lemma chop_back_nonempty: "p \<noteq> [] \<Longrightarrow> take (length p - min (length p - 1) n) p \<noteq> []"
  by (cases p) auto

lemma extendPath_cases:
  assumes "path \<noteq> []"
  obtains (fwd) "extendDir g FORWARD n (take (length path - min (length path - 1) n) path) {}
                   = Inl NoReturn"
                "extendPath path g n = Inl NoReturn"
  | (rev) path2 visited2 where
      "extendDir g FORWARD n (take (length path - min (length path - 1) n) path) {}
         = Inr (path2, visited2)"
      "extendDir g REVERSE n (drop (min (length path2 - 1) n) path2) visited2 = Inl NoReturn"
      "extendPath path g n = Inl NoReturn"
  | (ret) path2 visited2 path4 visited4 where
      "extendDir g FORWARD n (take (length path - min (length path - 1) n) path) {}
         = Inr (path2, visited2)"
      "extendDir g REVERSE n (drop (min (length path2 - 1) n) path2) visited2
         = Inr (path4, visited4)"
      "extendPath path g n = Inr path4" "path4 \<noteq> []"
proof -
  let ?p1 = "take (length path - min (length path - 1) n) path"
  note ph = extendPath_steps [OF assms, of g n]
  have ne1: "?p1 \<noteq> []" using assms by (rule chop_back_nonempty)
  show thesis
  proof (cases "extendDir g FORWARD n ?p1 {}")
    case (Inl e)
    then have "e = NoReturn" using ne1 extendDir_error by blast
    then have 1: "extendDir g FORWARD n ?p1 {} = Inl NoReturn" using Inl by simp
    then have "extendPath path g n = Inl NoReturn" unfolding ph by simp
    with 1 show thesis by (rule fwd)
  next
    case (Inr r)
    obtain path2 visited2 where r: "r = (path2, visited2)" by (cases r)
    have f: "extendDir g FORWARD n ?p1 {} = Inr (path2, visited2)" using Inr r by simp
    have "path2 \<noteq> []" using f by (rule extendDir_nonempty)
    then have ne3: "drop (min (length path2 - 1) n) path2 \<noteq> []" by (rule chop_front_nonempty)
    show thesis
    proof (cases "extendDir g REVERSE n (drop (min (length path2 - 1) n) path2) visited2")
      case (Inl e)
      then have "e = NoReturn" using ne3 extendDir_error by blast
      then have 2: "extendDir g REVERSE n (drop (min (length path2 - 1) n) path2) visited2
          = Inl NoReturn" using Inl by simp
      then have "extendPath path g n = Inl NoReturn" unfolding ph f by simp
      with f 2 show thesis by (rule rev)
    next
      case (Inr r')
      obtain path4 visited4 where r': "r' = (path4, visited4)" by (cases r')
      have b: "extendDir g REVERSE n (drop (min (length path2 - 1) n) path2) visited2
          = Inr (path4, visited4)" using Inr r' by simp
      have "extendPath path g n = Inr path4" using assms f b by (rule extendPath_result)
      moreover have "path4 \<noteq> []" using b by (rule extendDir_nonempty)
      ultimately show thesis using f b ret by blast
    qed
  qed
qed

text \<open>
  C6.  On a non-empty path, \<^verbatim>\<open>extendPath\<close> is these four steps in this order: remove
  exactly \<open>min (|path| - 1) minBranchLen\<close> vertices from the end; extend forward,
  starting from the empty visited set; from the path that comes back, remove exactly
  \<open>min (|path2| - 1) minBranchLen\<close> vertices at the start; extend in reverse, starting
  from the visited set that the forward extension left.  No step is undefined.
\<close>

theorem extendPath_phases:
  assumes "path \<noteq> []"
  shows "\<exists>kept removed.
     path = kept @ removed \<and> length removed = min (length path - 1) n \<and>
     extendPath path g n =
       (case extendDir g FORWARD n kept {} of
          Inl e \<Rightarrow> Inl e
        | Inr (path2, visited2) \<Rightarrow>
           (case extendDir g REVERSE n (drop (min (length path2 - 1) n) path2) visited2 of
              Inl e \<Rightarrow> Inl e
            | Inr (path4, visited4) \<Rightarrow> Inr path4))"
proof -
  let ?c = "min (length path - 1) n"
  let ?kept = "take (length path - ?c) path" and ?removed = "drop (length path - ?c) path"
  have "path = ?kept @ ?removed" by simp
  moreover have "length ?removed = ?c" by auto
  moreover note extendPath_steps [OF assms, of g n]
  ultimately show ?thesis by blast
qed

theorem extendPath_phases_witness:
  "[3, 4, 5, 6, 7 :: nat] \<noteq> [] \<and>
   extendPath [3, 4, 5, 6, 7] (chainGraph 9) 2 = Inr [0, 1, 2, 3, 4, 5, 6, 7, 8, 9]"
proof -
  have ne: "[3, 4, 5, 6, 7 :: nat] \<noteq> []" by simp
  have f: "extendDir (chainGraph 9) FORWARD 2 [3, 4, 5] {}
      = Inr ([3, 4, 5, 6, 7, 8, 9], {6, 7, 8, 9})"
    by (simp add: extendDir_def chain_forward)
  have r: "extendDir (chainGraph 9) REVERSE 2 [5, 6, 7, 8, 9] {6, 7, 8, 9}
      = Inr ([0, 1, 2, 3, 4, 5, 6, 7, 8, 9], {0, 1, 2, 3, 4, 6, 7, 8, 9})"
    by (simp add: extendDir_def chain_reverse)
  from extendPath_phases [OF ne, of 2 "chainGraph 9"] obtain kept removed where
    eq: "[3, 4, 5, 6, 7 :: nat] = kept @ removed" and len: "length removed = 2"
    and ex: "extendPath [3, 4, 5, 6, 7] (chainGraph 9) 2 =
       (case extendDir (chainGraph 9) FORWARD 2 kept {} of
          Inl e \<Rightarrow> Inl e
        | Inr (path2, visited2) \<Rightarrow>
           (case extendDir (chainGraph 9) REVERSE 2 (drop (min (length path2 - 1) 2) path2)
                   visited2 of
              Inl e \<Rightarrow> Inl e
            | Inr (path4, visited4) \<Rightarrow> Inr path4))"
    by auto
  from arg_cong [OF eq, of length] have "length kept + length removed = 5" by simp
  with len have "length kept = 3" by simp
  with eq have "kept = take 3 [3, 4, 5, 6, 7]" by (metis append_eq_conv_conj)
  then have "kept = [3, 4, 5]" by simp
  with ex f r show ?thesis by simp
qed

text \<open>
  C9.  \<^verbatim>\<open>extendPath\<close> on a non-empty path: a path that it returns is non-empty; the
  only way not to return a path is an extension that runs forever; and when the true
  branches of the graph all lie in a finite set of vertices, it does return a path.  The
  two reasons: on a non-empty path a chop takes at most all but one vertex, and a
  directional extension returns its input with vertices added at one end.
\<close>

theorem extendPath_nonempty:
  assumes "path \<noteq> []"
  shows "(\<forall>path'. extendPath path g n = Inr path' \<longrightarrow> path' \<noteq> []) \<and>
         (\<forall>e. extendPath path g n = Inl e \<longrightarrow> e = NoReturn) \<and>
         (\<forall>U. finite U \<and> (\<forall>v dir. set (g v dir n) \<subseteq> U) \<longrightarrow>
            (\<exists>path'. extendPath path g n = Inr path' \<and> path' \<noteq> [])) \<and>
         (\<forall>p. p \<noteq> [] \<longrightarrow> chopLen (length p) n \<le> length p - 1) \<and>
         (\<forall>dir p visited p' visited'. extendDir g dir n p visited = Inr (p', visited') \<longrightarrow>
            (\<exists>added. p' = (case dir of FORWARD \<Rightarrow> p @ added | REVERSE \<Rightarrow> added @ p)))"
proof -
  have a: "\<forall>path'. extendPath path g n = Inr path' \<longrightarrow> path' \<noteq> []"
    using assms by (cases rule: extendPath_cases [of path g n]) simp_all
  have b: "\<forall>e. extendPath path g n = Inl e \<longrightarrow> e = NoReturn"
    using assms by (cases rule: extendPath_cases [of path g n]) simp_all
  have c: "\<exists>path'. extendPath path g n = Inr path' \<and> path' \<noteq> []"
    if U: "finite U" "\<forall>v dir. set (g v dir n) \<subseteq> U" for U
    using assms
  proof (cases rule: extendPath_cases [of path g n])
    case fwd
    have "take (length path - min (length path - 1) n) path \<noteq> []"
      using assms by (rule chop_back_nonempty)
    from extendDir_returns [where g = g and n = n and U = U and dir = FORWARD and visited = "{}", OF this U] fwd(1) show ?thesis by simp
  next
    case (rev path2 visited2)
    have "path2 \<noteq> []" using rev(1) by (rule extendDir_nonempty)
    then have "drop (min (length path2 - 1) n) path2 \<noteq> []" by (rule chop_front_nonempty)
    from extendDir_returns [where g = g and n = n and U = U and dir = REVERSE and visited = visited2, OF this U] rev(2) show ?thesis by simp
  next
    case (ret path2 visited2 path4 visited4)
    then show ?thesis by simp
  qed
  have d: "\<forall>p. p \<noteq> [] \<longrightarrow> chopLen (length p) n \<le> length p - 1"
    by (simp add: chopLen_def)
  have e: "\<forall>dir p visited p' visited'. extendDir g dir n p visited = Inr (p', visited') \<longrightarrow>
            (\<exists>added. p' = (case dir of FORWARD \<Rightarrow> p @ added | REVERSE \<Rightarrow> added @ p))"
    using extendDir_adds by blast
  from a b c d e show ?thesis by blast
qed

theorem extendPath_nonempty_witness:
  "[3, 4, 5, 6, 7 :: nat] \<noteq> [] \<and> finite {0 .. 9 :: nat} \<and>
   (\<forall>v dir. set (chainGraph 9 v dir 2) \<subseteq> {0 .. 9}) \<and>
   (\<exists>path'. extendPath [3, 4, 5, 6, 7] (chainGraph 9) 2 = Inr path' \<and> path' \<noteq> [])"
proof -
  have ne: "[3, 4, 5, 6, 7 :: nat] \<noteq> []" by simp
  have fin: "finite {0 .. 9 :: nat}" by simp
  have sub: "\<forall>v dir. set (chainGraph 9 v dir 2) \<subseteq> {0 .. 9}"
    by (auto simp: chainGraph_def split: Direction.splits if_splits)
  from extendPath_nonempty [OF ne, of "chainGraph 9" 2] fin sub
  have "\<exists>path'. extendPath [3, 4, 5, 6, 7] (chainGraph 9) 2 = Inr path' \<and> path' \<noteq> []" by blast
  with ne fin sub show ?thesis by blast
qed

section \<open>Properties of \<^verbatim>\<open>trimSeq\<close>\<close>

lemma trimInv_init: "trimInv G 0 trimInitN"
  by (auto simp: trimInv_def maxInv_def trimInitN_def curStart_def dominated_def runIn_def)

lemma runIn_0: "runIn G s 0"
  by (auto simp: runIn_def)

lemma runIn_1:
  assumes "G p"
  shows "runIn G p (Suc 0)"
  unfolding runIn_def
proof (intro allI impI)
  fix q assume "p \<le> q \<and> q < p + Suc 0"
  then have "q = p" by arith
  then show "G q" using assms by simp
qed

lemma run_below:
  assumes "runIn G s L" and "0 < L" and "s + L \<le> c" and "\<forall>q. n \<le> q \<and> q < c \<longrightarrow> \<not> G q"
  shows "s + L \<le> n"
proof (rule ccontr)
  assume "\<not> s + L \<le> n"
  then have "n \<le> s + L - 1" "s + L - 1 < c" "s \<le> s + L - 1" "s + L - 1 < s + L"
    using assms(2,3) by auto
  then show False using assms(1,4) unfolding runIn_def by blast
qed

lemma maxInv_mono:
  assumes "maxInv G c t" and "c \<le> c'" and "\<forall>q. c \<le> q \<and> q < c' \<longrightarrow> \<not> G q"
    and "maxMatchStartN t' = maxMatchStartN t" and "maxMatchLenN t' = maxMatchLenN t"
  shows "maxInv G c' t'"
proof -
  have "dominated t' s L" if "0 < L" "s + L \<le> c'" "runIn G s L" for s L
  proof -
    have "s + L \<le> c" using that(3,1,2) assms(3) by (rule run_below)
    then have "dominated t s L" using assms(1) that by (simp add: maxInv_def)
    then show ?thesis using assms(4,5) by (simp add: dominated_def)
  qed
  then show ?thesis using assms(1,2,4,5) by (auto simp: maxInv_def)
qed

text \<open>What \<open>recordMatchN\<close> achieves: the best run up to the frontier.\<close>
lemma recordMatchN_maxInv:
  assumes "trimInv G n t"
  shows "maxInv G n (recordMatchN t)"
proof -
  let ?c = "curStart n t"
  from assms have cn: "?c \<le> n" and len: "matchLenN t = n - ?c"
    and run: "runIn G ?c (n - ?c)" and edge: "0 < ?c \<longrightarrow> \<not> G (?c - 1)"
    and mx: "maxInv G ?c t" and some: "matchStartN t \<noteq> None \<longrightarrow> ?c < n"
    by (simp_all add: trimInv_def)
  have none: "matchStartN t = None \<Longrightarrow> ?c = n" by (simp add: curStart_def)
  have somec: "matchStartN t = Some s \<Longrightarrow> ?c = s" for s by (simp add: curStart_def)
  have split: \<comment> \<open>a run below the frontier is before the open match or inside it\<close>
    "s + L \<le> ?c \<or> (?c \<le> s \<and> L \<le> n - ?c \<and> matchStartN t \<noteq> None)"
    if "0 < L" "s + L \<le> n" "runIn G s L" for s L
  proof (cases "s + L \<le> ?c")
    case True
    then show ?thesis by simp
  next
    case False
    have "?c \<le> s"
    proof (rule ccontr)
      assume "\<not> ?c \<le> s"
      then have "s \<le> ?c - 1" "?c - 1 < s + L" "0 < ?c" using False by auto
      then show False using that(3) edge unfolding runIn_def by blast
    qed
    moreover have "matchStartN t \<noteq> None" using False that(2) none by auto
    ultimately show ?thesis using that(2) by auto
  qed
  show ?thesis
  proof (cases "matchStartN t \<noteq> None \<and> matchLenN t > maxMatchLenN t")
    case True
    then obtain s0 where s0: "matchStartN t = Some s0" by auto
    have c: "?c = s0" using s0 by (rule somec)
    have rm: "recordMatchN t = t\<lparr>maxMatchLenN := matchLenN t, maxMatchStartN := matchStartN t\<rparr>"
      using True by (simp add: recordMatchN_def)
    have "dominated (recordMatchN t) s L" if "0 < L" "s + L \<le> n" "runIn G s L" for s L
    proof -
      from split [OF that] show ?thesis
      proof
        assume "s + L \<le> ?c"
        then have "dominated t s L" using mx that by (simp add: maxInv_def)
        then show ?thesis using True unfolding rm by (auto simp: dominated_def)
      next
        assume "?c \<le> s \<and> L \<le> n - ?c \<and> matchStartN t \<noteq> None"
        then show ?thesis unfolding rm using len c s0 by (auto simp: dominated_def)
      qed
    qed
    moreover have "0 < matchLenN t" using True by simp
    moreover have "s0 + matchLenN t \<le> n" using len c cn by simp
    moreover have "runIn G s0 (matchLenN t)" using run len c by simp
    ultimately show ?thesis unfolding maxInv_def rm using s0 by simp
  next
    case False
    then have rm: "recordMatchN t = t" by (auto simp: recordMatchN_def)
    have "dominated t s L" if "0 < L" "s + L \<le> n" "runIn G s L" for s L
    proof -
      from split [OF that] show ?thesis
      proof
        assume "s + L \<le> ?c"
        then show ?thesis using mx that by (simp add: maxInv_def)
      next
        assume a: "?c \<le> s \<and> L \<le> n - ?c \<and> matchStartN t \<noteq> None"
        then have le: "L \<le> maxMatchLenN t" using False len by auto
        then have "0 < maxMatchLenN t" using that(1) by simp
        then obtain ms where ms: "maxMatchStartN t = Some ms" using mx
          by (cases "maxMatchStartN t") (auto simp: maxInv_def)
        then have "ms + maxMatchLenN t \<le> ?c" using mx by (simp add: maxInv_def)
        then have "ms \<le> s" using a by simp
        then show ?thesis using le ms by (auto simp: dominated_def)
      qed
    qed
    moreover have "\<forall>ms. maxMatchStartN t = Some ms \<longrightarrow>
         0 < maxMatchLenN t \<and> ms + maxMatchLenN t \<le> n \<and> runIn G ms (maxMatchLenN t)"
      using mx cn by (auto simp: maxInv_def)
    moreover have "maxMatchStartN t = None \<longrightarrow> maxMatchLenN t = 0"
      using mx by (simp add: maxInv_def)
    ultimately show ?thesis unfolding maxInv_def rm by simp
  qed
qed

lemma recordMatchN_fields:
  "prevPosN (recordMatchN t) = prevPosN t" "matchStartN (recordMatchN t) = matchStartN t"
  "matchLenN (recordMatchN t) = matchLenN t"
  by (simp_all add: recordMatchN_def)


lemma trimStepN_restart:
  assumes inv: "trimInv G n t" and np: "n \<le> p"
    and between: "\<forall>q. n \<le> q \<and> q < p \<longrightarrow> \<not> G q"
    and Gp: "G p \<longleftrightarrow> hit p"
    and endm: "\<not> hit p \<or> (case prevPosN t of None \<Rightarrow> False | Some pp \<Rightarrow> p - pp > 1)"
  shows "trimInv G (p + 1) (trimStepN hit t p)"
proof -
  have mx: "maxInv G n (recordMatchN t)" using inv by (rule recordMatchN_maxInv)
  show ?thesis
  proof (cases "hit p")
    case False
    have st: "trimStepN hit t p =
        (recordMatchN t)\<lparr>matchStartN := None, matchLenN := 0, prevPosN := Some p\<rparr>"
      using False by (simp add: trimStepN_def Let_def)
    have b: "\<forall>q. n \<le> q \<and> q < p + 1 \<longrightarrow> \<not> G q"
      using between Gp False by (auto simp: less_Suc_eq)
    have "maxInv G (p + 1) (trimStepN hit t p)"
      by (rule maxInv_mono [OF mx _ b]) (use np in \<open>simp_all add: st\<close>)
    moreover have "\<not> G p" using Gp False by simp
    ultimately show ?thesis
      by (simp add: trimInv_def st curStart_def runIn_0)
  next
    case True
    then have gap: "case prevPosN t of None \<Rightarrow> False | Some pp \<Rightarrow> p - pp > 1"
      using endm by simp
    then obtain pp where pp: "prevPosN t = Some pp" "p - pp > 1"
      by (cases "prevPosN t") auto
    then have n: "n = pp + 1" using inv by (simp add: trimInv_def)
    then have lt: "n < p" using pp(2) by simp
    have st: "trimStepN hit t p =
        (recordMatchN t)\<lparr>matchStartN := Some p, matchLenN := 1, prevPosN := Some p\<rparr>"
      using True gap by (simp add: trimStepN_def Let_def)
    have "maxInv G p (trimStepN hit t p)"
      by (rule maxInv_mono [OF mx np between]) (simp_all add: st)
    moreover have "\<not> G (p - 1)" using between lt by simp
    moreover have "runIn G p (Suc 0)" using Gp True by (simp add: runIn_1)
    ultimately show ?thesis
      by (simp add: trimInv_def st curStart_def)
  qed
qed

lemma trimStepN_extend:
  assumes inv: "trimInv G n t" and np: "n \<le> p"
    and between: "\<forall>q. n \<le> q \<and> q < p \<longrightarrow> \<not> G q"
    and Gp: "G p \<longleftrightarrow> hit p"
    and noend: "\<not> (\<not> hit p \<or> (case prevPosN t of None \<Rightarrow> False | Some pp \<Rightarrow> p - pp > 1))"
  shows "trimInv G (p + 1) (trimStepN hit t p)"
proof -
  from noend have hit: "hit p"
    and nogap: "\<not> (case prevPosN t of None \<Rightarrow> False | Some pp \<Rightarrow> p - pp > 1)" by simp_all
  have G: "G p" using Gp hit by simp
  show ?thesis
  proof (cases "matchStartN t")
    case None
    have st: "trimStepN hit t p =
        t\<lparr>matchStartN := Some p, matchLenN := matchLenN t + 1, prevPosN := Some p\<rparr>"
      using hit nogap None by (simp add: trimStepN_def Let_def)
    have ml: "matchLenN t = 0" and c: "curStart n t = n"
      using inv None by (simp_all add: trimInv_def curStart_def)
    have below: "0 < p \<longrightarrow> \<not> G (p - 1)"
    proof
      assume "0 < p"
      show "\<not> G (p - 1)"
      proof (cases "p = n")
        case True
        then show ?thesis using inv c \<open>0 < p\<close> by (simp add: trimInv_def)
      next
        case False
        then have "n \<le> p - 1 \<and> p - 1 < p" using np by auto
        then show ?thesis using between by blast
      qed
    qed
    have "maxInv G n t" using inv c by (simp add: trimInv_def)
    then have "maxInv G p (trimStepN hit t p)"
      by (rule maxInv_mono [OF _ np between]) (simp_all add: st)
    moreover have "runIn G p (Suc 0)" using G by (rule runIn_1)
    ultimately show ?thesis using below ml
      by (simp add: trimInv_def st curStart_def)
  next
    case (Some s)
    have "prevPosN t \<noteq> None" using inv Some by (auto simp: trimInv_def)
    then obtain pp where pp: "prevPosN t = Some pp" by auto
    then have n: "n = pp + 1" using inv by (simp add: trimInv_def)
    have pn: "p = n" using nogap pp n np by simp
    have st: "trimStepN hit t p = t\<lparr>matchLenN := matchLenN t + 1, prevPosN := Some p\<rparr>"
      using hit nogap Some by (simp add: trimStepN_def Let_def)
    have c: "curStart n t = s" using Some by (simp add: curStart_def)
    from inv have sn: "s < n" and len: "matchLenN t = n - s" and run: "runIn G s (n - s)"
      and edge: "0 < s \<longrightarrow> \<not> G (s - 1)" and mx: "maxInv G s t"
      using Some unfolding trimInv_def c by simp_all
    have "runIn G s (n + 1 - s)" using run G pn sn
      by (auto simp: runIn_def less_Suc_eq)
    moreover have "maxInv G s (t\<lparr>matchLenN := matchLenN t + 1, prevPosN := Some p\<rparr>)"
      by (rule maxInv_mono [OF mx]) auto
    ultimately show ?thesis unfolding st using Some sn len edge pn
      by (simp add: trimInv_def curStart_def)
  qed
qed

lemma trimStepN_inv:
  assumes "trimInv G n t" and "n \<le> p" and "\<forall>q. n \<le> q \<and> q < p \<longrightarrow> \<not> G q"
    and "G p \<longleftrightarrow> hit p"
  shows "trimInv G (p + 1) (trimStepN hit t p)"
proof (cases "\<not> hit p \<or> (case prevPosN t of None \<Rightarrow> False | Some pp \<Rightarrow> p - pp > 1)")
  case True
  with assms show ?thesis by (rule trimStepN_restart)
next
  case False
  with assms show ?thesis by (rule trimStepN_extend)
qed

lemma trimLoop_inv:
  assumes "trimInv G n t" and "sorted_wrt (<) ps"
    and "\<forall>p\<in>set ps. n \<le> p \<and> (G p \<longleftrightarrow> hit p)"
    and "\<forall>q. n \<le> q \<and> q \<notin> set ps \<longrightarrow> \<not> G q"
  shows "\<exists>n'. trimInv G n' (foldl (trimStepN hit) t ps) \<and> (\<forall>q. n' \<le> q \<longrightarrow> \<not> G q)"
  using assms
proof (induction ps arbitrary: n t)
  case Nil
  then show ?case by auto
next
  case (Cons p ps)
  have np: "n \<le> p" and Gp: "G p \<longleftrightarrow> hit p" using Cons.prems(3) by simp_all
  have gt: "\<forall>q\<in>set ps. p < q" using Cons.prems(2) by simp
  have between: "\<forall>q. n \<le> q \<and> q < p \<longrightarrow> \<not> G q"
  proof (intro allI impI)
    fix q assume q: "n \<le> q \<and> q < p"
    then have "q \<notin> set (p # ps)" using gt by auto
    then show "\<not> G q" using Cons.prems(4) q by blast
  qed
  have inv': "trimInv G (p + 1) (trimStepN hit t p)"
    using Cons.prems(1) np between Gp by (rule trimStepN_inv)
  have "\<exists>n'. trimInv G n' (foldl (trimStepN hit) (trimStepN hit t p) ps) \<and>
      (\<forall>q. n' \<le> q \<longrightarrow> \<not> G q)"
  proof (rule Cons.IH [OF inv'])
    show "sorted_wrt (<) ps" using Cons.prems(2) by simp
    show "\<forall>q\<in>set ps. p + 1 \<le> q \<and> (G q \<longleftrightarrow> hit q)" using gt Cons.prems(3) by auto
    show "\<forall>q. p + 1 \<le> q \<and> q \<notin> set ps \<longrightarrow> \<not> G q" using Cons.prems(4) np by auto
  qed
  then show ?case by simp
qed

lemma sorted_kmerPositions: "sorted_wrt (<) (kmerPositions seq k)"
  by (simp add: kmerPositions_def sorted_wrt_filter del: upt_Suc)

lemma set_kmerPositions:
  "p \<in> set (kmerPositions seq k) \<longleftrightarrow> p + k \<le> length seq \<and> list_all isACGT (kmerAt seq k p)"
  by (auto simp: kmerPositions_def simp del: upt_Suc)

lemma goodRun_runIn: "goodRun rh seq F s L \<longleftrightarrow> 0 < L \<and> runIn (goodAt rh seq F) s L"
  by (auto simp: goodRun_def runIn_def list_all_iff)

lemma trimLoop_result:
  fixes rh seq F
  defines "k \<equiv> m_kmerSize F"
  defines "t \<equiv> recordMatchN (foldl (trimStepN
      (\<lambda>pos. bf_contains F (rh (m_hashNum F) (kmerAt seq k pos)))) trimInitN (kmerPositions seq k))"
  shows "maxMatchStartN t = None \<longrightarrow> maxMatchLenN t = 0"
    and "\<forall>ms. maxMatchStartN t = Some ms \<longrightarrow>
           0 < maxMatchLenN t \<and> runIn (goodAt rh seq F) ms (maxMatchLenN t)"
    and "\<forall>s L. 0 < L \<and> runIn (goodAt rh seq F) s L \<longrightarrow> dominated t s L"
proof -
  let ?G = "goodAt rh seq F"
  let ?hit = "\<lambda>pos. bf_contains F (rh (m_hashNum F) (kmerAt seq k pos))"
  let ?ps = "kmerPositions seq k"
  have a: "\<forall>p\<in>set ?ps. 0 \<le> p \<and> (?G p \<longleftrightarrow> ?hit p)"
    by (simp add: set_kmerPositions goodAt_def k_def)
  have b: "\<forall>q. 0 \<le> q \<and> q \<notin> set ?ps \<longrightarrow> \<not> ?G q"
    by (auto simp: set_kmerPositions goodAt_def k_def)
  from trimLoop_inv [OF trimInv_init sorted_kmerPositions a b]
  obtain n where inv: "trimInv ?G n (foldl (trimStepN ?hit) trimInitN ?ps)"
    and beyond: "\<forall>q. n \<le> q \<longrightarrow> \<not> ?G q" by blast
  from inv have mx: "maxInv ?G n t" unfolding t_def by (rule recordMatchN_maxInv)
  show "maxMatchStartN t = None \<longrightarrow> maxMatchLenN t = 0"
    using mx by (simp add: maxInv_def)
  show "\<forall>ms. maxMatchStartN t = Some ms \<longrightarrow> 0 < maxMatchLenN t \<and> runIn ?G ms (maxMatchLenN t)"
    using mx by (simp add: maxInv_def)
  show "\<forall>s L. 0 < L \<and> runIn ?G s L \<longrightarrow> dominated t s L"
  proof (intro allI impI)
    fix s L assume r: "0 < L \<and> runIn ?G s L"
    then have "s + L \<le> n"
      using beyond run_below [of ?G s L "s + L" n] by simp
    then show "dominated t s L" using mx r by (simp add: maxInv_def)
  qed
qed

lemma runIn_last_fits:
  assumes "runIn (goodAt rh seq F) s L" and "0 < L"
  shows "s + (L + m_kmerSize F - 1) \<le> length seq"
proof -
  have "goodAt rh seq F (s + L - 1)" using assms unfolding runIn_def by simp
  then have "s + L - 1 + m_kmerSize F \<le> length seq" by (simp add: goodAt_def)
  then show ?thesis using assms(2) by simp
qed

text \<open>
  The loop of the program and the unbounded loop agree as long as the positions stay
  below \<^verbatim>\<open>UINT_MAX\<close>: no position is then taken for an unset one, and a match of
  \<open>n\<close> k-mers ends at a position that is at least \<open>n - 1\<close>, so no length wraps.
\<close>

lemma u32_id: "n < 4294967296 \<Longrightarrow> u32 n = n"
  by (simp add: u32_def)

lemma u32_diff:
  assumes "pp \<le> p" and "p < 4294967296"
  shows "u32 (p + 2 ^ 32 - pp) = p - pp"
proof -
  have "p + 2 ^ 32 - pp = 2 ^ 32 + (p - pp)" using assms(1) by arith
  then have "u32 (p + 2 ^ 32 - pp) = (2 ^ 32 + (p - pp)) mod 2 ^ 32" by (simp only: u32_def)
  also have "\<dots> = (p - pp) mod 2 ^ 32" by (rule mod_add_self1)
  also have "\<dots> = p - pp" using assms(2) by simp
  finally show ?thesis .
qed

lemma wrapped_fields:
  "prevPos (wrapped t) = unsignedPos (prevPosN t)"
  "matchStart (wrapped t) = unsignedPos (matchStartN t)"
  "matchLen (wrapped t) = matchLenN t"
  "maxMatchStart (wrapped t) = unsignedPos (maxMatchStartN t)"
  "maxMatchLen (wrapped t) = maxMatchLenN t"
  by (simp_all add: wrapped_def)

lemma recordMatch_wrapped:
  assumes "\<forall>s. matchStartN t = Some s \<longrightarrow> s \<noteq> UNSET"
  shows "recordMatch (wrapped t) = wrapped (recordMatchN t)"
  using assms
  by (cases "matchStartN t")
     (auto simp: recordMatch_def recordMatchN_def wrapped_def unsignedPos_def)

lemma trimSeq_step_restart:
  assumes "\<not> hit pos \<or> (prevPos t \<noteq> UNSET \<and> u32 (u32 pos + 2 ^ 32 - prevPos t) > 1)"
  shows "trimSeq_step hit t pos =
      (if hit pos
       then (recordMatch t)\<lparr>matchStart := u32 pos, matchLen := u32 1, prevPos := u32 pos\<rparr>
       else (recordMatch t)\<lparr>matchStart := UNSET, matchLen := 0, prevPos := u32 pos\<rparr>)"
proof -
  have "trimSeq_step hit t pos =
      (let t1 = (recordMatch t)\<lparr>matchStart := UNSET, matchLen := 0\<rparr>;
           t2 = (if hit pos
                 then t1\<lparr>matchStart := (if matchStart t1 = UNSET then u32 pos else matchStart t1),
                         matchLen := u32 (matchLen t1 + 1)\<rparr>
                 else t1)
       in t2\<lparr>prevPos := u32 pos\<rparr>)"
    unfolding trimSeq_step_def by (simp only: if_P [OF assms])
  then show ?thesis by (simp add: Let_def)
qed

lemma trimSeq_step_continue:
  assumes "\<not> (\<not> hit pos \<or> (prevPos t \<noteq> UNSET \<and> u32 (u32 pos + 2 ^ 32 - prevPos t) > 1))"
  shows "trimSeq_step hit t pos =
      t\<lparr>matchStart := (if matchStart t = UNSET then u32 pos else matchStart t),
        matchLen := u32 (matchLen t + 1), prevPos := u32 pos\<rparr>"
proof -
  have hit: "hit pos" using assms by simp
  have "trimSeq_step hit t pos =
      (let t1 = t;
           t2 = (if hit pos
                 then t1\<lparr>matchStart := (if matchStart t1 = UNSET then u32 pos else matchStart t1),
                         matchLen := u32 (matchLen t1 + 1)\<rparr>
                 else t1)
       in t2\<lparr>prevPos := u32 pos\<rparr>)"
    unfolding trimSeq_step_def by (simp only: if_not_P [OF assms])
  then show ?thesis using hit by (simp add: Let_def)
qed

lemma trimSeq_step_wrapped:
  assumes inv: "trimInv G n t" and np: "n \<le> p" and p: "p < UNSET"
  shows "trimSeq_step hit (wrapped t) p = wrapped (trimStepN hit t p)"
proof -
  have p32: "p < 4294967296" using p by (simp add: UNSET_def)
  have up: "u32 p = p" using p32 by (rule u32_id)
  have u1: "u32 1 = 1" by (simp add: u32_def)
  have ms: "s < p" if "matchStartN t = Some s" for s
    using inv np that by (auto simp: trimInv_def curStart_def)
  have ml: "matchLenN t \<le> p" using inv np by (simp add: trimInv_def)
  have "\<forall>s. matchStartN t = Some s \<longrightarrow> s \<noteq> UNSET"
  proof (intro allI impI)
    fix s assume "matchStartN t = Some s"
    then have "s < p" by (rule ms)
    then show "s \<noteq> UNSET" using p by simp
  qed
  then have rm: "recordMatch (wrapped t) = wrapped (recordMatchN t)"
    by (rule recordMatch_wrapped)
  have gap: "(prevPos (wrapped t) \<noteq> UNSET \<and> u32 (u32 p + 2 ^ 32 - prevPos (wrapped t)) > 1) \<longleftrightarrow>
      (case prevPosN t of None \<Rightarrow> False | Some pp \<Rightarrow> p - pp > 1)"
  proof (cases "prevPosN t")
    case None
    then show ?thesis by (simp add: wrapped_def unsignedPos_def)
  next
    case (Some pp)
    then have "n = pp + 1" using inv by (simp add: trimInv_def)
    then have lt: "pp < p" using np by simp
    then have "pp \<le> p" by simp
    then have d: "u32 (p + 2 ^ 32 - pp) = p - pp" using p32 by (rule u32_diff)
    have ne: "pp \<noteq> UNSET" using lt p by simp
    have pv: "prevPos (wrapped t) = pp" using Some by (simp add: wrapped_def unsignedPos_def)
    show ?thesis unfolding pv up d using ne Some by simp
  qed
  show ?thesis
  proof (cases "\<not> hit p \<or> (case prevPosN t of None \<Rightarrow> False | Some pp \<Rightarrow> p - pp > 1)")
    case True
    then have w: "\<not> hit p \<or> (prevPos (wrapped t) \<noteq> UNSET \<and>
        u32 (u32 p + 2 ^ 32 - prevPos (wrapped t)) > 1)"
      unfolding gap .
    have a: "trimStepN hit t p =
        (if hit p then (recordMatchN t)\<lparr>matchStartN := Some p, matchLenN := 1, prevPosN := Some p\<rparr>
         else (recordMatchN t)\<lparr>matchStartN := None, matchLenN := 0, prevPosN := Some p\<rparr>)"
      using True by (simp add: trimStepN_def Let_def)
    show ?thesis unfolding a trimSeq_step_restart [where hit = hit and t = "wrapped t" and pos = p, OF w] rm up u1
      by (simp add: wrapped_def unsignedPos_def)
  next
    case False
    then have w: "\<not> (\<not> hit p \<or> (prevPos (wrapped t) \<noteq> UNSET \<and>
        u32 (u32 p + 2 ^ 32 - prevPos (wrapped t)) > 1))"
      unfolding gap .
    have "matchLenN t + 1 < 4294967296" using ml p by (simp add: UNSET_def)
    then have inc: "u32 (matchLenN t + 1) = matchLenN t + 1" by (rule u32_id)
    have a: "trimStepN hit t p =
        t\<lparr>matchStartN := (case matchStartN t of None \<Rightarrow> Some p | Some s \<Rightarrow> Some s),
          matchLenN := matchLenN t + 1, prevPosN := Some p\<rparr>"
      using False by (simp add: trimStepN_def Let_def)
    have b: "trimSeq_step hit (wrapped t) p =
        (wrapped t)\<lparr>matchStart := (if matchStart (wrapped t) = UNSET then p
                                    else matchStart (wrapped t)),
          matchLen := matchLenN t + 1, prevPos := p\<rparr>"
      unfolding trimSeq_step_continue [where hit = hit and t = "wrapped t" and pos = p, OF w] up
        wrapped_fields(3) inc ..
    show ?thesis
    proof (cases "matchStartN t")
      case None
      then show ?thesis unfolding a b by (simp add: wrapped_def unsignedPos_def)
    next
      case (Some s)
      then have "s < p" by (rule ms)
      then have "s \<noteq> UNSET" using p by simp
      then show ?thesis unfolding a b using Some by (simp add: wrapped_def unsignedPos_def)
    qed
  qed
qed

lemma trimLoop_wrapped:
  assumes "trimInv G n t" and "sorted_wrt (<) ps"
    and "\<forall>p\<in>set ps. n \<le> p \<and> (G p \<longleftrightarrow> hit p) \<and> p < UNSET"
    and "\<forall>q. n \<le> q \<and> q \<notin> set ps \<longrightarrow> \<not> G q"
  shows "foldl (trimSeq_step hit) (wrapped t) ps = wrapped (foldl (trimStepN hit) t ps)"
  using assms
proof (induction ps arbitrary: n t)
  case Nil
  then show ?case by simp
next
  case (Cons p ps)
  have np: "n \<le> p" and Gp: "G p \<longleftrightarrow> hit p" and pU: "p < UNSET"
    using Cons.prems(3) by simp_all
  have gt: "\<forall>q\<in>set ps. p < q" using Cons.prems(2) by simp
  have between: "\<forall>q. n \<le> q \<and> q < p \<longrightarrow> \<not> G q"
  proof (intro allI impI)
    fix q assume q: "n \<le> q \<and> q < p"
    then have "q \<notin> set (p # ps)" using gt by auto
    then show "\<not> G q" using Cons.prems(4) q by blast
  qed
  have inv': "trimInv G (p + 1) (trimStepN hit t p)"
    using Cons.prems(1) np between Gp by (rule trimStepN_inv)
  have step: "trimSeq_step hit (wrapped t) p = wrapped (trimStepN hit t p)"
    using Cons.prems(1) np pU by (rule trimSeq_step_wrapped)
  have "foldl (trimSeq_step hit) (wrapped (trimStepN hit t p)) ps =
      wrapped (foldl (trimStepN hit) (trimStepN hit t p) ps)"
  proof (rule Cons.IH [OF inv'])
    show "sorted_wrt (<) ps" using Cons.prems(2) by simp
    show "\<forall>q\<in>set ps. p + 1 \<le> q \<and> (G q \<longleftrightarrow> hit q) \<and> q < UNSET"
      using gt Cons.prems(3) by auto
    show "\<forall>q. p + 1 \<le> q \<and> q \<notin> set ps \<longrightarrow> \<not> G q" using Cons.prems(4) np by auto
  qed
  then show ?case by (simp add: step)
qed

text \<open>
  \<^verbatim>\<open>trimSeq\<close> in terms of the unbounded loop, for a sequence whose last k-mer position
  is below \<^verbatim>\<open>UINT_MAX\<close>.  Only the length given to \<^verbatim>\<open>substr\<close> can still wrap.
\<close>

lemma trimSeq_unbounded:
  fixes rh seq F
  defines "k \<equiv> m_kmerSize F"
  defines "t \<equiv> recordMatchN (foldl (trimStepN
      (\<lambda>pos. bf_contains F (rh (m_hashNum F) (kmerAt seq k pos)))) trimInitN (kmerPositions seq k))"
  assumes bound: "length seq < UNSET + m_kmerSize F" and long: "\<not> length seq < m_kmerSize F"
  shows "trimSeq rh seq F =
      (if maxMatchLenN t = 0 then Inr []
       else substr seq (unsignedPos (maxMatchStartN t)) (u32 (maxMatchLenN t + k - 1)))"
proof -
  let ?G = "goodAt rh seq F"
  let ?hit = "\<lambda>pos. bf_contains F (rh (m_hashNum F) (kmerAt seq k pos))"
  let ?ps = "kmerPositions seq k"
  have a: "\<forall>p\<in>set ?ps. 0 \<le> p \<and> (?G p \<longleftrightarrow> ?hit p)"
    by (simp add: set_kmerPositions goodAt_def k_def)
  have a': "\<forall>p\<in>set ?ps. 0 \<le> p \<and> (?G p \<longleftrightarrow> ?hit p) \<and> p < UNSET"
    using bound by (auto simp: set_kmerPositions goodAt_def k_def)
  have b: "\<forall>q. 0 \<le> q \<and> q \<notin> set ?ps \<longrightarrow> \<not> ?G q"
    by (auto simp: set_kmerPositions goodAt_def k_def)
  have init: "trimInit = wrapped trimInitN"
    by (simp add: trimInit_def trimInitN_def wrapped_def unsignedPos_def)
  have loop: "foldl (trimSeq_step ?hit) trimInit ?ps = wrapped (foldl (trimStepN ?hit) trimInitN ?ps)"
    unfolding init by (rule trimLoop_wrapped [OF trimInv_init sorted_kmerPositions a' b])
  from trimLoop_inv [OF trimInv_init sorted_kmerPositions a b]
  obtain n where inv: "trimInv ?G n (foldl (trimStepN ?hit) trimInitN ?ps)" by blast
  have "s \<noteq> UNSET" if s: "matchStartN (foldl (trimStepN ?hit) trimInitN ?ps) = Some s" for s
  proof -
    from inv s have "s < n" and "runIn ?G s (n - s)"
      by (simp_all add: trimInv_def curStart_def)
    then have "?G s" by (simp add: runIn_def)
    then have "s + m_kmerSize F \<le> length seq" by (simp add: goodAt_def)
    then show ?thesis using bound by simp
  qed
  then have "recordMatch (wrapped (foldl (trimStepN ?hit) trimInitN ?ps)) = wrapped t"
    unfolding t_def by (simp add: recordMatch_wrapped)
  then have "recordMatch (foldl (trimSeq_step ?hit) trimInit ?ps) = wrapped t"
    by (simp add: loop)
  then show ?thesis
    using long by (simp add: trimSeq_def Let_def k_def wrapped_fields)
qed

text \<open>The two outcomes of \<open>trimSeq\<close> for such a sequence.\<close>
lemma trimSeq_outcome:
  fixes rh seq F
  defines "k \<equiv> m_kmerSize F"
  assumes bound: "length seq < UNSET + m_kmerSize F"
  obtains (empty) "trimSeq rh seq F = Inr []" "\<forall>pos. \<not> goodAt rh seq F pos"
  | (run) s L where "0 < L" "runIn (goodAt rh seq F) s L"
      "trimSeq rh seq F = Inr (take (u32 (L + k - 1)) (drop s seq))"
      "\<forall>s' L'. 0 < L' \<and> runIn (goodAt rh seq F) s' L' \<longrightarrow> L' < L \<or> (L' = L \<and> s \<le> s')"
proof (cases "length seq < k")
  case True
  then have "\<forall>pos. \<not> goodAt rh seq F pos" by (simp add: goodAt_def k_def)
  moreover have "trimSeq rh seq F = Inr []" using True by (simp add: trimSeq_def k_def)
  ultimately show thesis by (rule empty [rotated])
next
  case False
  let ?G = "goodAt rh seq F"
  define t where "t = recordMatchN (foldl (trimStepN
      (\<lambda>pos. bf_contains F (rh (m_hashNum F) (kmerAt seq k pos)))) trimInitN (kmerPositions seq k))"
  note res = trimLoop_result [where rh = rh and seq = seq and F = F, folded k_def, folded t_def]
  have tr: "trimSeq rh seq F =
      (if maxMatchLenN t = 0 then Inr []
       else substr seq (unsignedPos (maxMatchStartN t)) (u32 (maxMatchLenN t + k - 1)))"
    unfolding t_def k_def using bound False [unfolded k_def] by (rule trimSeq_unbounded)
  show thesis
  proof (cases "maxMatchLenN t = 0")
    case True
    have "\<not> ?G pos" for pos
    proof
      assume "?G pos"
      then have "runIn ?G pos (Suc 0)" by (rule runIn_1)
      then have "dominated t pos (Suc 0)" using res(3) by simp
      then show False using True by (simp add: dominated_def)
    qed
    moreover have "trimSeq rh seq F = Inr []" using True tr by simp
    ultimately show thesis using empty by blast
  next
    case nz: False
    then obtain ms where ms: "maxMatchStartN t = Some ms"
      using res(1) by (cases "maxMatchStartN t") auto
    then have pos: "0 < maxMatchLenN t" and r: "runIn ?G ms (maxMatchLenN t)"
      using res(2) by simp_all
    have "ms + (maxMatchLenN t + k - 1) \<le> length seq"
      using runIn_last_fits [OF r pos] by (simp add: k_def)
    then have "ms \<le> length seq" by simp
    then have "trimSeq rh seq F = Inr (take (u32 (maxMatchLenN t + k - 1)) (drop ms seq))"
      using nz ms tr by (simp add: substr_def unsignedPos_def)
    moreover have "\<forall>s' L'. 0 < L' \<and> runIn ?G s' L' \<longrightarrow>
        L' < maxMatchLenN t \<or> (L' = maxMatchLenN t \<and> ms \<le> s')"
      using res(3) ms by (simp add: dominated_def)
    ultimately show thesis using pos r run by blast
  qed
qed

text \<open>The sequence of \<open>2 ^ 32 + 2\<close> bases: its one run has \<open>2 ^ 32 - 1\<close> k-mers.\<close>

lemma goodAt_longRead:
  "goodAt exampleHash longRead polyAFilter p \<longleftrightarrow> p + 4 \<le> 4294967298"
proof (cases "p + 4 \<le> 4294967298")
  case True
  have four: "replicate 4 CHR ''A'' = ''AAAA''" by (simp add: eval_nat_numeral)
  have "kmerAt longRead 4 p = replicate 4 CHR ''A''"
    using True by (simp add: kmerAt_def longRead_def min_def)
  then have w: "kmerAt longRead 4 p = ''AAAA''" by (simp only: four)
  have len: "length longRead = 4294967298" by (simp add: longRead_def)
  have "list_all isACGT ''AAAA''" by (simp add: isACGT_def)
  moreover have "bf_contains polyAFilter (exampleHash 1 ''AAAA'')"
    by (simp add: polyAFilter_def exampleHash_def bf_contains_def)
  ultimately show ?thesis using True unfolding goodAt_def
    by (simp add: polyAFilter_def w len)
next
  case False
  have len: "length longRead = 4294967298" by (simp add: longRead_def)
  show ?thesis using False by (simp add: goodAt_def polyAFilter_def len)
qed

lemma runIn_longRead: "runIn (goodAt exampleHash longRead polyAFilter) 0 4294967295"
  by (simp add: runIn_def goodAt_longRead)

lemma trimSeq_longRead: "trimSeq exampleHash longRead polyAFilter = Inr ''AA''"
proof -
  have k: "m_kmerSize polyAFilter = 4" by (simp add: polyAFilter_def)
  have len: "length longRead = 4294967298" by (simp add: longRead_def)
  have b: "length longRead < UNSET + m_kmerSize polyAFilter"
    by (simp add: k len UNSET_def)
  from b show ?thesis
  proof (cases rule: trimSeq_outcome [where rh = exampleHash and seq = longRead and F = polyAFilter])
    case empty
    then have "\<not> goodAt exampleHash longRead polyAFilter 0" by blast
    then show ?thesis by (simp add: goodAt_longRead)
  next
    case (run s L)
    have "s + (L + m_kmerSize polyAFilter - 1) \<le> length longRead"
      using run(2,1) by (rule runIn_last_fits)
    then have le: "s + L \<le> 4294967295" using run(1) by (simp add: k len)
    have "0 < (4294967295::nat) \<and> runIn (goodAt exampleHash longRead polyAFilter) 0 4294967295"
      using runIn_longRead by simp
    then have "4294967295 < L \<or> (4294967295 = L \<and> s \<le> 0)"
      using run(4) by blast
    then have L: "L = 4294967295" and s: "s = 0" using le by auto
    have "u32 (L + m_kmerSize polyAFilter - 1) = 2" by (simp add: L k u32_def)
    then have "trimSeq exampleHash longRead polyAFilter = Inr (take 2 longRead)"
      using run(3) s by simp
    moreover have "take 2 longRead = ''AA''"
    proof -
      have two: "replicate 2 CHR ''A'' = ''AA''" by (simp add: numeral_2_eq_2)
      have "take 2 longRead = replicate 2 CHR ''A''" by (simp add: longRead_def)
      then show ?thesis by (simp only: two)
    qed
    ultimately show ?thesis by simp
  qed
qed

text \<open>
  C3.  For a sequence of less than \<open>2 ^ 32 - 1\<close> characters (\<^verbatim>\<open>UINT_MAX\<close>, the largest
  value of the \<^verbatim>\<open>unsigned\<close> variables of the loop): if the sequence is shorter than
  \<open>k\<close> or has no good position, \<^verbatim>\<open>trimSeq\<close> leaves the empty string.  Otherwise it
  leaves the substring covered by a good run (consecutive positions whose k-mers are all
  in the filter) such that every good run is shorter, or has the same length and does not
  start before it: the longest run, and the first of the longest.
\<close>

theorem trimSeq_longest_run:
  assumes "length seq < UNSET"
  shows
  "(length seq < m_kmerSize F \<or> (\<forall>pos. \<not> goodAt rh seq F pos) \<longrightarrow> trimSeq rh seq F = Inr []) \<and>
   ((\<exists>pos. goodAt rh seq F pos) \<longrightarrow>
      (\<exists>s L. goodRun rh seq F s L \<and>
         trimSeq rh seq F = Inr (take (L + m_kmerSize F - 1) (drop s seq)) \<and>
         (\<forall>s' L'. goodRun rh seq F s' L' \<longrightarrow> L' < L \<or> (L' = L \<and> s \<le> s'))))"
proof -
  have b: "length seq < UNSET + m_kmerSize F" using assms by simp
  from b show ?thesis
  proof (cases rule: trimSeq_outcome [where rh = rh and seq = seq and F = F])
    case empty
    then show ?thesis by simp
  next
    case (run s L)
    have short: "\<not> length seq < m_kmerSize F"
    proof
      assume "length seq < m_kmerSize F"
      then have "\<not> goodAt rh seq F s" by (simp add: goodAt_def)
      moreover have "goodAt rh seq F s" using run(1,2) by (simp add: runIn_def)
      ultimately show False by simp
    qed
    have some: "\<exists>pos. goodAt rh seq F pos" using run(1,2) unfolding runIn_def
      by (metis le_refl less_add_same_cancel1)
    have "s + (L + m_kmerSize F - 1) \<le> length seq"
      using run(2,1) by (rule runIn_last_fits)
    then have "L + m_kmerSize F - 1 < 4294967296" using assms by (simp add: UNSET_def)
    then have "u32 (L + m_kmerSize F - 1) = L + m_kmerSize F - 1" by (rule u32_id)
    then have res: "trimSeq rh seq F = Inr (take (L + m_kmerSize F - 1) (drop s seq))"
      using run(3) by simp
    have "goodRun rh seq F s L" using run(1,2) by (simp add: goodRun_runIn)
    moreover have "\<forall>s' L'. goodRun rh seq F s' L' \<longrightarrow> L' < L \<or> (L' = L \<and> s \<le> s')"
      using run(4) by (simp add: goodRun_runIn)
    ultimately show ?thesis using res short some by blast
  qed
qed

theorem trimSeq_longest_run_witness:
  "length ''GACGTAGGTACGC'' < UNSET \<and>
   goodAt exampleHash ''GACGTAGGTACGC'' exampleFilter 0 \<and>
   goodRun exampleHash ''GACGTAGGTACGC'' exampleFilter 6 3 \<and>
   trimSeq exampleHash ''GACGTAGGTACGC'' exampleFilter = Inr ''GACGTA'' \<and>
   (\<exists>s L. goodRun exampleHash ''GACGTAGGTACGC'' exampleFilter s L \<and>
      ''GACGTA'' = take (L + 4 - 1) (drop s ''GACGTAGGTACGC'') \<and>
      (3 < L \<or> (3 = L \<and> s \<le> 6)))"
proof -
  have b: "length ''GACGTAGGTACGC'' < UNSET" by (simp add: UNSET_def)
  have g: "goodAt exampleHash ''GACGTAGGTACGC'' exampleFilter 0" by code_simp
  have r: "goodRun exampleHash ''GACGTAGGTACGC'' exampleFilter 6 3" by code_simp
  have e: "trimSeq exampleHash ''GACGTAGGTACGC'' exampleFilter = Inr ''GACGTA''" by code_simp
  have k: "m_kmerSize exampleFilter = 4" by (simp add: exampleFilter_def)
  from trimSeq_longest_run [OF b, of exampleFilter exampleHash] g
  obtain s L where
    "goodRun exampleHash ''GACGTAGGTACGC'' exampleFilter s L"
    "trimSeq exampleHash ''GACGTAGGTACGC'' exampleFilter
       = Inr (take (L + m_kmerSize exampleFilter - 1) (drop s ''GACGTAGGTACGC''))"
    "\<forall>s' L'. goodRun exampleHash ''GACGTAGGTACGC'' exampleFilter s' L' \<longrightarrow>
       L' < L \<or> (L' = L \<and> s \<le> s')"
    by blast
  then have "goodRun exampleHash ''GACGTAGGTACGC'' exampleFilter s L \<and>
      ''GACGTA'' = take (L + 4 - 1) (drop s ''GACGTAGGTACGC'') \<and>
      (3 < L \<or> (3 = L \<and> s \<le> 6))"
    using r unfolding e k by blast
  with b g r e show ?thesis by blast
qed

text \<open>
  C3 as it was stated, for every sequence, fails on the sequence of \<open>2 ^ 32 + 2\<close> times
  \<open>A\<close> with \<open>k = 4\<close>.  The whole sequence is one good run of \<open>2 ^ 32 - 1\<close> k-mers; the
  substring it covers is the whole sequence.  The length \<open>maxMatchLen + k - 1\<close> wraps
  to 2, and \<^verbatim>\<open>trimSeq\<close> leaves \<open>AA\<close>, which is shorter than \<open>k\<close> and is not the
  substring of any good run.
\<close>

theorem trimSeq_longest_run_counterexample:
  "goodRun exampleHash longRead polyAFilter 0 4294967295 \<and>
   length (take (4294967295 + m_kmerSize polyAFilter - 1) (drop 0 longRead)) = 4294967298 \<and>
   trimSeq exampleHash longRead polyAFilter = Inr ''AA'' \<and>
   (\<nexists>s L. goodRun exampleHash longRead polyAFilter s L \<and>
      Inr ''AA'' = (Inr (take (L + m_kmerSize polyAFilter - 1) (drop s longRead)) :: error + Sequence))"
proof -
  have "goodRun exampleHash longRead polyAFilter 0 4294967295"
    using runIn_longRead by (simp add: goodRun_runIn)
  moreover have "''AA'' \<noteq> take (L + m_kmerSize polyAFilter - 1) (drop s longRead)"
    if "goodRun exampleHash longRead polyAFilter s L" for s L
  proof -
    from that have r: "runIn (goodAt exampleHash longRead polyAFilter) s L" and L: "0 < L"
      by (simp_all add: goodRun_runIn)
    have "s + (L + m_kmerSize polyAFilter - 1) \<le> length longRead"
      using r L by (rule runIn_last_fits)
    then have "length (take (L + m_kmerSize polyAFilter - 1) (drop s longRead))
        = L + m_kmerSize polyAFilter - 1" by simp
    then have "length (take (L + m_kmerSize polyAFilter - 1) (drop s longRead)) \<noteq> length ''AA''"
      using L by (simp add: polyAFilter_def)
    then show ?thesis by metis
  qed
  moreover have "length (take (4294967295 + m_kmerSize polyAFilter - 1) (drop 0 longRead))
      = 4294967298"
    by (simp add: polyAFilter_def longRead_def)
  ultimately show ?thesis using trimSeq_longRead by auto
qed

text \<open>
  C10.  For a sequence of less than \<open>2 ^ 32 - 1\<close> characters, \<^verbatim>\<open>trimSeq\<close> returns, and
  the sequence it leaves is empty or is the substring of the original that starts at
  some position and has exactly \<open>matchLen + k - 1\<close> characters for some
  \<open>matchLen \<ge> 1\<close>, all of them inside the original; so it has at least \<open>k\<close> characters.
\<close>

theorem trimSeq_length:
  assumes "length seq < UNSET"
  shows
  "\<exists>r. trimSeq rh seq F = Inr r \<and>
     (r = [] \<or>
      (\<exists>start matchLen. 1 \<le> matchLen \<and>
         start + (matchLen + m_kmerSize F - 1) \<le> length seq \<and>
         r = take (matchLen + m_kmerSize F - 1) (drop start seq) \<and>
         length r = matchLen + m_kmerSize F - 1 \<and> m_kmerSize F \<le> length r))"
proof -
  have b: "length seq < UNSET + m_kmerSize F" using assms by simp
  from b show ?thesis
  proof (cases rule: trimSeq_outcome [where rh = rh and seq = seq and F = F])
    case empty
    then show ?thesis by simp
  next
    case (run s L)
    let ?r = "take (L + m_kmerSize F - 1) (drop s seq)"
    have fit: "s + (L + m_kmerSize F - 1) \<le> length seq"
      using run(2,1) by (rule runIn_last_fits)
    then have "L + m_kmerSize F - 1 < 4294967296" using assms by (simp add: UNSET_def)
    then have "u32 (L + m_kmerSize F - 1) = L + m_kmerSize F - 1" by (rule u32_id)
    then have res: "trimSeq rh seq F = Inr ?r" using run(3) by simp
    have len: "length ?r = L + m_kmerSize F - 1" using fit by simp
    moreover have "m_kmerSize F \<le> length ?r" using run(1) unfolding len by simp
    moreover have "1 \<le> L" using run(1) by simp
    ultimately show ?thesis using res fit by blast
  qed
qed

theorem trimSeq_length_witness:
  "length ''GACGTAGGTACGC'' < UNSET \<and>
   trimSeq exampleHash ''GACGTAGGTACGC'' exampleFilter = Inr ''GACGTA'' \<and>
   (\<exists>start matchLen. 1 \<le> matchLen \<and>
      ''GACGTA'' = take (matchLen + 4 - 1) (drop start ''GACGTAGGTACGC'') \<and>
      length ''GACGTA'' = matchLen + 4 - 1)"
proof -
  have b: "length ''GACGTAGGTACGC'' < UNSET" by (simp add: UNSET_def)
  have e: "trimSeq exampleHash ''GACGTAGGTACGC'' exampleFilter = Inr ''GACGTA''" by code_simp
  have k: "m_kmerSize exampleFilter = 4" by (simp add: exampleFilter_def)
  from trimSeq_length [OF b, of exampleHash exampleFilter]
  have "\<exists>start matchLen. 1 \<le> matchLen \<and>
      ''GACGTA'' = take (matchLen + 4 - 1) (drop start ''GACGTAGGTACGC'') \<and>
      length ''GACGTA'' = matchLen + 4 - 1"
    unfolding e k by auto
  with b e show ?thesis by blast
qed

text \<open>
  C10 as it was stated, for every sequence, fails on the same sequence of \<open>2 ^ 32 + 2\<close>
  times \<open>A\<close>: what \<^verbatim>\<open>trimSeq\<close> leaves is not empty, has two characters where
  \<open>k = 4\<close>, and no \<open>matchLen \<ge> 1\<close> gives it the length \<open>matchLen + k - 1\<close>.
\<close>

theorem trimSeq_length_counterexample:
  "(\<exists>r. trimSeq exampleHash longRead polyAFilter = Inr r \<and> r \<noteq> [] \<and>
      length r < m_kmerSize polyAFilter \<and>
      (\<nexists>matchLen. 1 \<le> matchLen \<and> length r = matchLen + m_kmerSize polyAFilter - 1))"
proof -
  have "length ''AA'' < m_kmerSize polyAFilter" by (simp add: polyAFilter_def)
  moreover have "\<nexists>matchLen. 1 \<le> matchLen \<and> length ''AA'' = matchLen + m_kmerSize polyAFilter - 1"
    by (simp add: polyAFilter_def)
  ultimately show ?thesis using trimSeq_longRead by auto
qed

section \<open>Properties of \<^verbatim>\<open>assemble\<close>\<close>

lemma bf_insert_fields:
  "m_size (bf_insert b hs) = m_size b" "m_hashNum (bf_insert b hs) = m_hashNum b"
  "m_kmerSize (bf_insert b hs) = m_kmerSize b"
  by (simp_all add: bf_insert_def)

lemma bf_contains_insert: "bf_contains (bf_insert b hs) hs"
  by (simp add: bf_contains_def bf_insert_def list_all_iff)

lemma bf_contains_mono: "bf_contains b hs' \<Longrightarrow> bf_contains (bf_insert b hs) hs'"
  by (simp add: bf_contains_def bf_insert_def list_all_iff)

lemma foldl_insert_fields:
  "m_size (foldl (\<lambda>b pos. bf_insert b (f pos)) b ps) = m_size b \<and>
   m_hashNum (foldl (\<lambda>b pos. bf_insert b (f pos)) b ps) = m_hashNum b \<and>
   m_kmerSize (foldl (\<lambda>b pos. bf_insert b (f pos)) b ps) = m_kmerSize b"
  by (induction ps arbitrary: b) (simp_all add: bf_insert_fields)

lemma foldl_insert_mono:
  "bf_contains b hs \<Longrightarrow> bf_contains (foldl (\<lambda>b pos. bf_insert b (f pos)) b ps) hs"
  by (induction ps arbitrary: b) (simp_all add: bf_contains_mono)

lemma foldl_insert_all:
  "p \<in> set ps \<Longrightarrow> bf_contains (foldl (\<lambda>b pos. bf_insert b (f pos)) b ps) (f p)"
proof (induction ps arbitrary: b)
  case Nil
  then show ?case by simp
next
  case (Cons q ps)
  show ?case
  proof (cases "p = q")
    case True
    have "bf_contains (bf_insert b (f q)) (f q)" by (rule bf_contains_insert)
    then show ?thesis using True by (simp add: foldl_insert_mono)
  next
    case False
    then have "p \<in> set ps" using Cons.prems by simp
    then show ?thesis using Cons.IH by simp
  qed
qed

lemma addKmersToBloom_fields:
  "m_size (addKmersToBloom rh seq b) = m_size b"
  "m_hashNum (addKmersToBloom rh seq b) = m_hashNum b"
  "m_kmerSize (addKmersToBloom rh seq b) = m_kmerSize b"
  using foldl_insert_fields [of "\<lambda>pos. rh (m_hashNum b) (kmerAt seq (m_kmerSize b) pos)" b
      "kmerPositions seq (m_kmerSize b)"]
  by (simp_all add: addKmersToBloom_def Let_def)

lemma addKmersToBloom_covers:
  assumes "m_kmerSize b \<le> length seq"
  shows "allKmersInBloom rh seq (addKmersToBloom rh seq b) = Inr True"
proof -
  have "bf_contains (addKmersToBloom rh seq b) (rh (m_hashNum b) (kmerAt seq (m_kmerSize b) p))"
    if "p \<in> set (kmerPositions seq (m_kmerSize b))" for p
    using foldl_insert_all [OF that,
        of "\<lambda>pos. rh (m_hashNum b) (kmerAt seq (m_kmerSize b) pos)" b]
    by (simp add: addKmersToBloom_def Let_def)
  then show ?thesis using assms
    by (simp add: allKmersInBloom_def Let_def addKmersToBloom_fields list_all_iff)
qed

lemma addKmersToBloom_keeps:
  assumes "allKmersInBloom rh s b = Inr True"
  shows "allKmersInBloom rh s (addKmersToBloom rh seq b) = Inr True"
proof -
  from assms have len: "\<not> length s < m_kmerSize b"
    and all: "\<forall>p\<in>set (kmerPositions s (m_kmerSize b)).
        bf_contains b (rh (m_hashNum b) (kmerAt s (m_kmerSize b) p))"
    by (auto simp: allKmersInBloom_def Let_def list_all_iff split: if_splits)
  have "bf_contains (addKmersToBloom rh seq b) (rh (m_hashNum b) (kmerAt s (m_kmerSize b) p))"
    if "p \<in> set (kmerPositions s (m_kmerSize b))" for p
    using all that
      foldl_insert_mono [of b "rh (m_hashNum b) (kmerAt s (m_kmerSize b) p)"
        "\<lambda>pos. rh (m_hashNum b) (kmerAt seq (m_kmerSize b) pos)"]
    by (simp add: addKmersToBloom_def Let_def)
  then show ?thesis using len
    by (simp add: allKmersInBloom_def Let_def addKmersToBloom_fields list_all_iff)
qed

lemma allKmersInBloom_cases:
  obtains (short) "length seq < m_kmerSize b" "allKmersInBloom rh seq b = Inl AssertionFailed"
  | (covered) "m_kmerSize b \<le> length seq" "allKmersInBloom rh seq b = Inr True"
  | (missing) "m_kmerSize b \<le> length seq" "allKmersInBloom rh seq b = Inr False"
proof (cases "length seq < m_kmerSize b")
  case True
  then have "allKmersInBloom rh seq b = Inl AssertionFailed"
    by (simp add: allKmersInBloom_def Let_def)
  with True show thesis by (rule short)
next
  case False
  then have le: "m_kmerSize b \<le> length seq" by simp
  let ?all = "list_all (\<lambda>pos. bf_contains b (rh (m_hashNum b) (kmerAt seq (m_kmerSize b) pos)))
      (kmerPositions seq (m_kmerSize b))"
  have eq: "allKmersInBloom rh seq b = Inr ?all"
    using False by (simp add: allKmersInBloom_def Let_def)
  show thesis
  proof (cases ?all)
    case True
    then have "allKmersInBloom rh seq b = Inr True" using eq by simp
    with le show thesis by (rule covered)
  next
    case False
    then have "allKmersInBloom rh seq b = Inr False" using eq by simp
    with le show thesis by (rule missing)
  qed
qed

lemma emitContig_covered:
  "allKmersInBloom rh seq (assembledKmerSet st) = Inr True \<Longrightarrow> emitContig rh st r seq = Inr st"
  by (simp add: emitContig_def)

lemma emitContig_missing:
  "allKmersInBloom rh seq (assembledKmerSet st) = Inr False \<Longrightarrow>
   emitContig rh st r seq =
     Inr (st\<lparr>assembledKmerSet := addKmersToBloom rh seq (assembledKmerSet st),
             contigID := contigID st + 1,
             out := out st @ [\<lparr>rec_id = decimal (contigID st) @ '' read:'' @ rec_id r,
                               rec_seq = seq\<rparr>],
             counters := (counters st)
               \<lparr>basesAssembled := basesAssembled (counters st) + length seq mod 2 ^ 32\<rparr>\<rparr>)"
  by (simp add: emitContig_def)

lemma emitContig_short:
  "allKmersInBloom rh seq (assembledKmerSet st) = Inl e \<Longrightarrow> emitContig rh st r seq = Inl e"
  by (simp add: emitContig_def)

lemma emitContig_dedupInv:
  assumes "dedupInv rh st" and "emitContig rh st r seq = Inr st'"
  shows "dedupInv rh st'"
proof (cases rule: allKmersInBloom_cases [of seq "assembledKmerSet st" rh])
  case short
  then show ?thesis using assms(2) by (simp add: emitContig_short)
next
  case covered
  then show ?thesis using assms by (simp add: emitContig_covered)
next
  case missing
  let ?b' = "addKmersToBloom rh seq (assembledKmerSet st)"
  have st': "out st' = out st @ [\<lparr>rec_id = decimal (contigID st) @ '' read:'' @ rec_id r,
                               rec_seq = seq\<rparr>]" "assembledKmerSet st' = ?b'"
    using assms(2) missing(2) by (auto simp: emitContig_missing)
  have new: "seq \<notin> rec_seq ` set (out st)"
  proof
    assume "seq \<in> rec_seq ` set (out st)"
    then have "allKmersInBloom rh seq (assembledKmerSet st) = Inr True"
      using assms(1) by (auto simp: dedupInv_def)
    then show False using missing(2) by simp
  qed
  have "allKmersInBloom rh seq ?b' = Inr True" using missing(1) by (rule addKmersToBloom_covers)
  moreover have "\<forall>c\<in>set (out st). allKmersInBloom rh (rec_seq c) ?b' = Inr True"
    using assms(1) by (simp add: dedupInv_def addKmersToBloom_keeps)
  ultimately show ?thesis using assms(1) new by (simp add: dedupInv_def st')
qed

lemma assemblePaths_Cons_Inr:
  assumes "assemblePaths rh graph n r first (p # ps) st = Inr st'"
  obtains p1 seq st1 where
    "(if first \<or> ps = [] then extendPath p graph n else Inr p) = Inr p1"
    "pathToSeq p1 = Inr seq" "emitContig rh st r seq = Inr st1"
    "assemblePaths rh graph n r False ps st1 = Inr st'"
proof -
  let ?e = "if first \<or> ps = [] then extendPath p graph n else Inr p"
  from assms have a: "(case ?e of Inl e \<Rightarrow> Inl e | Inr p1 \<Rightarrow>
      (case pathToSeq p1 of Inl e \<Rightarrow> Inl e | Inr seq \<Rightarrow>
        (case emitContig rh st r seq of Inl e \<Rightarrow> Inl e
         | Inr st1 \<Rightarrow> assemblePaths rh graph n r False ps st1))) = Inr st'"
    by (simp only: assemblePaths.simps)
  obtain p1 where 1: "?e = Inr p1" using a by (cases ?e) simp_all
  from a have b: "(case pathToSeq p1 of Inl e \<Rightarrow> Inl e | Inr seq \<Rightarrow>
        (case emitContig rh st r seq of Inl e \<Rightarrow> Inl e
         | Inr st1 \<Rightarrow> assemblePaths rh graph n r False ps st1)) = Inr st'"
    by (simp only: 1 sum.case)
  obtain seq where 2: "pathToSeq p1 = Inr seq" using b by (cases "pathToSeq p1") simp_all
  from b have c: "(case emitContig rh st r seq of Inl e \<Rightarrow> Inl e
         | Inr st1 \<Rightarrow> assemblePaths rh graph n r False ps st1) = Inr st'"
    by (simp only: 2 sum.case)
  obtain st1 where 3: "emitContig rh st r seq = Inr st1"
    using c by (cases "emitContig rh st r seq") simp_all
  from c have "assemblePaths rh graph n r False ps st1 = Inr st'" by (simp only: 3 sum.case)
  with 1 2 3 show thesis by (rule that)
qed

lemma assemblePaths_dedupInv:
  assumes "assemblePaths rh graph n r first paths st = Inr st'" and "dedupInv rh st"
  shows "dedupInv rh st'"
  using assms
proof (induction paths arbitrary: first st)
  case Nil
  then show ?case by simp
next
  case (Cons p ps)
  from Cons.prems(1) obtain p1 seq st1 where
    e: "emitContig rh st r seq = Inr st1"
    and rest: "assemblePaths rh graph n r False ps st1 = Inr st'"
    by (rule assemblePaths_Cons_Inr)
  from Cons.prems(2) e have "dedupInv rh st1" by (rule emitContig_dedupInv)
  with rest show ?case by (rule Cons.IH)
qed

lemma dedupInv_counters [simp]: "dedupInv rh (st\<lparr>counters := c\<rparr>) = dedupInv rh st"
  by (simp add: dedupInv_def)

lemma emitContig_preserves:
  assumes "emitContig rh st r seq = Inr st'"
  shows "readsExtended (counters st') = readsExtended (counters st)"
    and "readsProcessed (counters st') = readsProcessed (counters st)"
    and "m_kmerSize (assembledKmerSet st') = m_kmerSize (assembledKmerSet st)"
proof -
  have "readsExtended (counters st') = readsExtended (counters st) \<and>
        readsProcessed (counters st') = readsProcessed (counters st) \<and>
        m_kmerSize (assembledKmerSet st') = m_kmerSize (assembledKmerSet st)"
  proof (cases rule: allKmersInBloom_cases [of seq "assembledKmerSet st" rh])
    case short
    then show ?thesis using assms by (simp add: emitContig_short)
  next
    case covered
    then show ?thesis using assms by (simp add: emitContig_covered)
  next
    case missing
    then show ?thesis using assms by (auto simp: emitContig_missing addKmersToBloom_fields)
  qed
  then show "readsExtended (counters st') = readsExtended (counters st)"
    and "readsProcessed (counters st') = readsProcessed (counters st)"
    and "m_kmerSize (assembledKmerSet st') = m_kmerSize (assembledKmerSet st)" by simp_all
qed

lemma assemblePaths_preserves:
  assumes "assemblePaths rh graph n r first paths st = Inr st'"
  shows "readsExtended (counters st') = readsExtended (counters st) \<and>
         readsProcessed (counters st') = readsProcessed (counters st) \<and>
         m_kmerSize (assembledKmerSet st') = m_kmerSize (assembledKmerSet st)"
  using assms
proof (induction paths arbitrary: first st)
  case Nil
  then show ?case by simp
next
  case (Cons p ps)
  from Cons.prems obtain p1 seq st1 where
    e: "emitContig rh st r seq = Inr st1"
    and rest: "assemblePaths rh graph n r False ps st1 = Inr st'"
    by (rule assemblePaths_Cons_Inr)
  from Cons.IH [OF rest] emitContig_preserves [OF e] show ?case by simp
qed

text \<open>The value of the skip flag.\<close>
lemma skipRead_value:
  assumes "m_kmerSize (assembledKmerSet st) = m_kmerSize goodKmerSet"
  shows "skipRead rh goodKmerSet st r =
     Inr (length (rec_seq r) < m_kmerSize goodKmerSet \<or>
          allKmersInBloom rh (rec_seq r) goodKmerSet = Inr False \<or>
          allKmersInBloom rh (rec_seq r) (assembledKmerSet st) = Inr True)"
proof (cases rule: allKmersInBloom_cases [of "rec_seq r" goodKmerSet rh])
  case short
  then show ?thesis by (simp add: skipRead_def)
next
  case covered
  then have len: "\<not> length (rec_seq r) < m_kmerSize goodKmerSet" by simp
  show ?thesis
  proof (cases rule: allKmersInBloom_cases [of "rec_seq r" "assembledKmerSet st" rh])
    case short
    then show ?thesis using len assms by simp
  next
    case covered
    then show ?thesis using len \<open>allKmersInBloom rh (rec_seq r) goodKmerSet = Inr True\<close>
      by (simp add: skipRead_def)
  next
    case missing
    then show ?thesis using len \<open>allKmersInBloom rh (rec_seq r) goodKmerSet = Inr True\<close>
      by (simp add: skipRead_def)
  qed
next
  case missing
  then show ?thesis by (simp add: skipRead_def)
qed

lemma processRead_skipped:
  assumes "skipRead rh goodKmerSet st r = Inr True"
  shows "processRead rh goodKmerSet graph st r =
     Inr (st\<lparr>counters := (counters st)\<lparr>readsProcessed := readsProcessed (counters st) + 1\<rparr>\<rparr>)"
  using assms by (simp add: processRead_def Let_def)

lemma processRead_extended:
  assumes "skipRead rh goodKmerSet st r = Inr False"
    and "processRead rh goodKmerSet graph st r = Inr st'"
  obtains path st1 where
    "seqToPath rh (rec_seq r) (m_kmerSize goodKmerSet) (m_hashNum goodKmerSet) = Inr path"
    "assemblePaths rh graph (m_kmerSize goodKmerSet + 1) r True
       (splitPath path graph (m_kmerSize goodKmerSet + 1)) st = Inr st1"
    "st' = st1\<lparr>counters := (counters st1)
       \<lparr>readsExtended := readsExtended (counters st1) + 1,
        readsProcessed := readsProcessed (counters st1) + 1\<rparr>\<rparr>"
proof -
  let ?k = "m_kmerSize goodKmerSet"
  let ?sp = "seqToPath rh (rec_seq r) ?k (m_hashNum goodKmerSet)"
  obtain path where 1: "?sp = Inr path"
    using assms by (cases ?sp) (simp_all add: processRead_def Let_def)
  let ?ap = "assemblePaths rh graph (?k + 1) r True (splitPath path graph (?k + 1)) st"
  obtain st1 where 2: "?ap = Inr st1"
    using assms 1 by (cases ?ap) (simp_all add: processRead_def Let_def)
  have "st' = st1\<lparr>counters := (counters st1)
       \<lparr>readsExtended := readsExtended (counters st1) + 1,
        readsProcessed := readsProcessed (counters st1) + 1\<rparr>\<rparr>"
    using assms 1 2 by (simp add: processRead_def Let_def)
  with 1 2 show thesis by (rule that)
qed

lemma processRead_dedupInv:
  assumes "m_kmerSize (assembledKmerSet st) = m_kmerSize goodKmerSet"
    and "dedupInv rh st" and "processRead rh goodKmerSet graph st r = Inr st'"
  shows "dedupInv rh st' \<and> m_kmerSize (assembledKmerSet st') = m_kmerSize goodKmerSet"
proof (cases "length (rec_seq r) < m_kmerSize goodKmerSet \<or>
          allKmersInBloom rh (rec_seq r) goodKmerSet = Inr False \<or>
          allKmersInBloom rh (rec_seq r) (assembledKmerSet st) = Inr True")
  case True
  then have "skipRead rh goodKmerSet st r = Inr True"
    using skipRead_value [OF assms(1), of rh r] by simp
  from processRead_skipped [OF this, of graph] assms show ?thesis by auto
next
  case False
  then have "skipRead rh goodKmerSet st r = Inr False"
    using skipRead_value [OF assms(1), of rh r] by simp
  from this assms(3) obtain path st1 where
    ap: "assemblePaths rh graph (m_kmerSize goodKmerSet + 1) r True
       (splitPath path graph (m_kmerSize goodKmerSet + 1)) st = Inr st1"
    and st': "st' = st1\<lparr>counters := (counters st1)
       \<lparr>readsExtended := readsExtended (counters st1) + 1,
        readsProcessed := readsProcessed (counters st1) + 1\<rparr>\<rparr>"
    by (rule processRead_extended)
  have "dedupInv rh st1" using ap assms(2) by (rule assemblePaths_dedupInv)
  moreover have "m_kmerSize (assembledKmerSet st1) = m_kmerSize goodKmerSet"
    using assemblePaths_preserves [OF ap] assms(1) by simp
  ultimately show ?thesis by (simp add: st')
qed

lemma assembleReads_dedupInv:
  assumes "assembleReads rh goodKmerSet graph st reads = Inr st'"
    and "m_kmerSize (assembledKmerSet st) = m_kmerSize goodKmerSet" and "dedupInv rh st"
  shows "dedupInv rh st'"
  using assms
proof (induction reads arbitrary: st)
  case Nil
  then show ?case by simp
next
  case (Cons r rs)
  from Cons.prems(1) obtain st1 where
    p: "processRead rh goodKmerSet graph st r = Inr st1"
    and rest: "assembleReads rh goodKmerSet graph st1 rs = Inr st'"
    by (cases "processRead rh goodKmerSet graph st r") simp_all
  from processRead_dedupInv [OF Cons.prems(2,3) p]
  have "dedupInv rh st1" "m_kmerSize (assembledKmerSet st1) = m_kmerSize goodKmerSet"
    by simp_all
  with rest show ?case using Cons.IH by blast
qed

lemma assemble_dedupInv:
  assumes "assemble rh reads genomeSize goodKmerSet graph = Inr st"
  shows "dedupInv rh st"
proof -
  from assms obtain sz where sz: "roundUpToMultiple genomeSize 64 = Some sz"
    by (cases "roundUpToMultiple genomeSize 64") (simp_all add: assemble_def)
  let ?st0 = "\<lparr>assembledKmerSet =
               newBloomFilter (unat sz) (m_hashNum goodKmerSet) (m_kmerSize goodKmerSet),
             contigID = 0, out = [],
             counters = \<lparr>readsExtended = 0, readsProcessed = 0, basesAssembled = 0\<rparr>\<rparr>"
  have run: "assembleReads rh goodKmerSet graph ?st0 reads = Inr st"
    using assms sz by (simp add: assemble_def)
  have "m_kmerSize (assembledKmerSet ?st0) = m_kmerSize goodKmerSet"
    by (simp add: newBloomFilter_def)
  moreover have "dedupInv rh ?st0" by (simp add: dedupInv_def)
  ultimately show ?thesis using run assembleReads_dedupInv by blast
qed

text \<open>
  C1.  The output block of \<^verbatim>\<open>assemble\<close>, for any state and any contig: when the block
  returns, then either some k-mer of the contig was absent from the assembled filter
  before, the contig is the one record written, all its k-mers are in the filter
  afterwards and the same block on the same contig writes nothing more; or all its
  k-mers were in the filter and nothing changes.  The block keeps the invariant that no
  sequence is written twice and every written sequence is covered by the filter, and so a
  run of \<^verbatim>\<open>assemble\<close> ends in a state with this invariant.
\<close>

theorem assemble_dedup:
  "(\<forall>st r seq st'. emitContig rh st r seq = Inr st' \<longrightarrow>
      (if allKmersInBloom rh seq (assembledKmerSet st) = Inr False
       then out st' = out st @ [\<lparr>rec_id = decimal (contigID st) @ '' read:'' @ rec_id r,
                                  rec_seq = seq\<rparr>] \<and>
            allKmersInBloom rh seq (assembledKmerSet st') = Inr True \<and>
            emitContig rh st' r seq = Inr st'
       else st' = st)) \<and>
   (\<forall>st r seq st'. dedupInv rh st \<and> emitContig rh st r seq = Inr st' \<longrightarrow> dedupInv rh st') \<and>
   (\<forall>st. assemble rh reads genomeSize goodKmerSet graph = Inr st \<longrightarrow> dedupInv rh st)"
proof (intro conjI allI impI)
  fix st :: AssemblyState and r seq st'
  assume e: "emitContig rh st r seq = Inr st'"
  show "if allKmersInBloom rh seq (assembledKmerSet st) = Inr False
       then out st' = out st @ [\<lparr>rec_id = decimal (contigID st) @ '' read:'' @ rec_id r,
                                  rec_seq = seq\<rparr>] \<and>
            allKmersInBloom rh seq (assembledKmerSet st') = Inr True \<and>
            emitContig rh st' r seq = Inr st'
       else st' = st"
  proof (cases rule: allKmersInBloom_cases [of seq "assembledKmerSet st" rh])
    case short
    then show ?thesis using e by (simp add: emitContig_short)
  next
    case covered
    then show ?thesis using e by (simp add: emitContig_covered)
  next
    case missing
    have o: "out st' = out st @ [\<lparr>rec_id = decimal (contigID st) @ '' read:'' @ rec_id r,
                                  rec_seq = seq\<rparr>]"
      and b: "assembledKmerSet st' = addKmersToBloom rh seq (assembledKmerSet st)"
      using e missing(2) by (auto simp: emitContig_missing)
    have c: "allKmersInBloom rh seq (assembledKmerSet st') = Inr True"
      unfolding b using missing(1) by (rule addKmersToBloom_covers)
    then have "emitContig rh st' r seq = Inr st'" by (rule emitContig_covered)
    with o c missing(2) show ?thesis by simp
  qed
next
  fix st :: AssemblyState and r seq st'
  assume "dedupInv rh st \<and> emitContig rh st r seq = Inr st'"
  then show "dedupInv rh st'" using emitContig_dedupInv by blast
next
  fix st
  assume "assemble rh reads genomeSize goodKmerSet graph = Inr st"
  then show "dedupInv rh st" by (rule assemble_dedupInv)
qed

theorem assemble_dedup_witness:
  "allKmersInBloom exampleHash ''CGTA'' (assembledKmerSet exampleState) = Inr False \<and>
   emitContig exampleHash exampleState \<lparr>rec_id = ''r1'', rec_seq = ''ACGTACGTAC''\<rparr> ''CGTA''
     = Inr \<lparr>assembledKmerSet = \<lparr>m_filter = {44}, m_size = 64, m_hashNum = 1, m_kmerSize = 4\<rparr>,
            contigID = 1, out = [\<lparr>rec_id = ''0 read:r1'', rec_seq = ''CGTA''\<rparr>],
            counters = \<lparr>readsExtended = 0, readsProcessed = 0, basesAssembled = 4\<rparr>\<rparr> \<and>
   assemble exampleHash exampleReads 64 exampleFilter deadEndGraph
     = Inr \<lparr>assembledKmerSet = \<lparr>m_filter = {44}, m_size = 64, m_hashNum = 1, m_kmerSize = 4\<rparr>,
            contigID = 1, out = [\<lparr>rec_id = ''0 read:r1'', rec_seq = ''CGTA''\<rparr>],
            counters = \<lparr>readsExtended = 2, readsProcessed = 4, basesAssembled = 4\<rparr>\<rparr> \<and>
   dedupInv exampleHash
     \<lparr>assembledKmerSet = \<lparr>m_filter = {44}, m_size = 64, m_hashNum = 1, m_kmerSize = 4\<rparr>,
      contigID = 1, out = [\<lparr>rec_id = ''0 read:r1'', rec_seq = ''CGTA''\<rparr>],
      counters = \<lparr>readsExtended = 2, readsProcessed = 4, basesAssembled = 4\<rparr>\<rparr>"
proof -
  have a: "allKmersInBloom exampleHash ''CGTA'' (assembledKmerSet exampleState) = Inr False"
    by code_simp
  have e: "emitContig exampleHash exampleState \<lparr>rec_id = ''r1'', rec_seq = ''ACGTACGTAC''\<rparr> ''CGTA''
     = Inr \<lparr>assembledKmerSet = \<lparr>m_filter = {44}, m_size = 64, m_hashNum = 1, m_kmerSize = 4\<rparr>,
            contigID = 1, out = [\<lparr>rec_id = ''0 read:r1'', rec_seq = ''CGTA''\<rparr>],
            counters = \<lparr>readsExtended = 0, readsProcessed = 0, basesAssembled = 4\<rparr>\<rparr>"
    by code_simp
  have r: "assemble exampleHash exampleReads 64 exampleFilter deadEndGraph
     = Inr \<lparr>assembledKmerSet = \<lparr>m_filter = {44}, m_size = 64, m_hashNum = 1, m_kmerSize = 4\<rparr>,
            contigID = 1, out = [\<lparr>rec_id = ''0 read:r1'', rec_seq = ''CGTA''\<rparr>],
            counters = \<lparr>readsExtended = 2, readsProcessed = 4, basesAssembled = 4\<rparr>\<rparr>"
    by code_simp
  from assemble_dedup [of exampleHash exampleReads 64 exampleFilter deadEndGraph] r
  have "dedupInv exampleHash
     \<lparr>assembledKmerSet = \<lparr>m_filter = {44}, m_size = 64, m_hashNum = 1, m_kmerSize = 4\<rparr>,
      contigID = 1, out = [\<lparr>rec_id = ''0 read:r1'', rec_seq = ''CGTA''\<rparr>],
      counters = \<lparr>readsExtended = 2, readsProcessed = 4, basesAssembled = 4\<rparr>\<rparr>"
    by blast
  with a e r show ?thesis by blast
qed

text \<open>
  C7.  The read \<open>ACGTAXGTAC\<close> is not shorter than \<open>k = 4\<close>, and its window at
  position 2, \<open>GTAX\<close>, is no k-mer of bases, so not all its k-mers are in the good
  filter: it is a read to be skipped.  The loop of \<^verbatim>\<open>allKmersInBloom\<close> never sees
  that window, because the iterator passes over it, and answers that all k-mers are in
  the good filter.  The read is not skipped: a path of the three k-mers \<open>ACGT\<close>,
  \<open>CGTA\<close>, \<open>GTAC\<close> is built, although the third does not follow the second in the
  read, the contig \<open>ACGT\<close> is written and inserted, and \<^verbatim>\<open>readsExtended\<close> grows.
  For the read \<open>ACGTACGTACXACGTACGTAC\<close> the path joined across the \<open>X\<close> gives the
  contig \<open>CGTACTA\<close>, which is in neither half of the read and has k-mers that the
  good filter does not hold.
\<close>

theorem processRead_nonbase_read_not_skipped:
  "m_kmerSize exampleFilter \<le> length (rec_seq nonBaseRead) \<and>
   kmerAt (rec_seq nonBaseRead) (m_kmerSize exampleFilter) 2 = ''GTAX'' \<and>
   \<not> list_all isACGT (kmerAt (rec_seq nonBaseRead) (m_kmerSize exampleFilter) 2) \<and>
   allKmersInBloom exampleHash (rec_seq nonBaseRead) exampleFilter = Inr True \<and>
   skipRead exampleHash exampleFilter exampleState nonBaseRead = Inr False \<and>
   seqToPath exampleHash (rec_seq nonBaseRead) 4 1
     = Inr [(Kmer ''ACGT'', [27]), (Kmer ''CGTA'', [108]), (Kmer ''GTAC'', [177])] \<and>
   processRead exampleHash exampleFilter deadEndGraph exampleState nonBaseRead
     = Inr \<lparr>assembledKmerSet = \<lparr>m_filter = {27}, m_size = 64, m_hashNum = 1, m_kmerSize = 4\<rparr>,
            contigID = 1, out = [\<lparr>rec_id = ''0 read:s2'', rec_seq = ''ACGT''\<rparr>],
            counters = \<lparr>readsExtended = 1, readsProcessed = 1, basesAssembled = 4\<rparr>\<rparr> \<and>
   processRead exampleHash exampleFilter deadEndGraph exampleState nonBaseRead2
     = Inr \<lparr>assembledKmerSet = \<lparr>m_filter = {7, 44, 49, 28}, m_size = 64, m_hashNum = 1,
                                 m_kmerSize = 4\<rparr>,
            contigID = 1, out = [\<lparr>rec_id = ''0 read:s3'', rec_seq = ''CGTACTA''\<rparr>],
            counters = \<lparr>readsExtended = 1, readsProcessed = 1, basesAssembled = 7\<rparr>\<rparr> \<and>
   allKmersInBloom exampleHash ''CGTACTA'' exampleFilter = Inr False"
proof -
  have a: "m_kmerSize exampleFilter \<le> length (rec_seq nonBaseRead)" by code_simp
  have b: "kmerAt (rec_seq nonBaseRead) (m_kmerSize exampleFilter) 2 = ''GTAX''" by code_simp
  have c: "\<not> list_all isACGT (kmerAt (rec_seq nonBaseRead) (m_kmerSize exampleFilter) 2)"
    by code_simp
  have d: "allKmersInBloom exampleHash (rec_seq nonBaseRead) exampleFilter = Inr True"
    by code_simp
  have e: "skipRead exampleHash exampleFilter exampleState nonBaseRead = Inr False"
    by code_simp
  have f: "seqToPath exampleHash (rec_seq nonBaseRead) 4 1
     = Inr [(Kmer ''ACGT'', [27]), (Kmer ''CGTA'', [108]), (Kmer ''GTAC'', [177])]"
    by code_simp
  have g: "processRead exampleHash exampleFilter deadEndGraph exampleState nonBaseRead
     = Inr \<lparr>assembledKmerSet = \<lparr>m_filter = {27}, m_size = 64, m_hashNum = 1, m_kmerSize = 4\<rparr>,
            contigID = 1, out = [\<lparr>rec_id = ''0 read:s2'', rec_seq = ''ACGT''\<rparr>],
            counters = \<lparr>readsExtended = 1, readsProcessed = 1, basesAssembled = 4\<rparr>\<rparr>"
    by code_simp
  have h: "processRead exampleHash exampleFilter deadEndGraph exampleState nonBaseRead2
     = Inr \<lparr>assembledKmerSet = \<lparr>m_filter = {7, 44, 49, 28}, m_size = 64, m_hashNum = 1,
                                 m_kmerSize = 4\<rparr>,
            contigID = 1, out = [\<lparr>rec_id = ''0 read:s3'', rec_seq = ''CGTACTA''\<rparr>],
            counters = \<lparr>readsExtended = 1, readsProcessed = 1, basesAssembled = 7\<rparr>\<rparr>"
    by code_simp
  have i: "allKmersInBloom exampleHash ''CGTACTA'' exampleFilter = Inr False" by code_simp
  from a b c d e f g h i show ?thesis by blast
qed

end
